theory Spec2Isabelle
  imports Complex_Main "HOL-Library.Monad_Syntax"
begin

section \<open>Conversion between Gregorian calendar dates and Julian Dates\<close>

text \<open>
  A shallow embedding of the C99 sources \<^verbatim>\<open>alternate-jd-algos.c\<close> (the cycle-counting
  engines), \<^verbatim>\<open>alternate-cal2jd.c\<close> and \<^verbatim>\<open>alternate-jd2cal.c\<close> (the terse engines).

  \<^item> A C \<^verbatim>\<open>int\<close> is a 32-bit two's complement integer. It is modelled by \<open>int\<close>, and
    every \<^verbatim>\<open>int\<close> addition, subtraction and multiplication of the source whose result may
    leave the 32-bit range is wrapped by \<open>wrap32\<close>. Division and remainder truncate
    towards zero (\<open>c_div\<close>, \<open>c_mod\<close>); every divisor in the sources is a positive constant.
  \<^item> A C \<^verbatim>\<open>double\<close> is modelled by an exact \<open>real\<close>. For a whole-day date every sum and
    difference the engines form is a multiple of one half far below \<open>2 ^ 53\<close>, which a
    double holds exactly, and the one quotient (by the days of a cycle) is used under
    \<^verbatim>\<open>floor\<close> only, which its rounding does not change at these magnitudes. Rounding of a
    \<^verbatim>\<open>double\<close> is not modelled: for inputs with a fraction of a day the theorems are
    about the exact values.
  \<^item> Reading an array outside its bounds and converting a \<^verbatim>\<open>double\<close> outside the
    \<^verbatim>\<open>int\<close> range to \<^verbatim>\<open>int\<close> have no defined value in C: an engine that does either
    returns \<open>None\<close>, which stands for outputs with no defined contents.
  \<^item> The output parameters (\<^verbatim>\<open>double *djm0, double *djm\<close> and
    \<^verbatim>\<open>int *iy, int *im, int *id, double *fd\<close>) are passed as state: a public function
    takes their contents before the call and returns the status together with their
    contents after the call (\<open>Some\<close> of the old contents when nothing was written).
  \<^item> Names are those of the sources; the day parameter \<^verbatim>\<open>id\<close> is written \<open>id'\<close>.
\<close>

subsection \<open>C arithmetic\<close>

type_synonym c_int = int
type_synonym double = real

definition INT_MIN :: c_int where
  "INT_MIN = - 2147483648"

definition INT_MAX :: c_int where
  "INT_MAX = 2147483647"

definition wrap32 :: "int \<Rightarrow> c_int" where
  "wrap32 x = (x + 2147483648) mod 4294967296 - 2147483648"

definition c_div :: "c_int \<Rightarrow> c_int \<Rightarrow> c_int" where
  "c_div a b = sgn a * sgn b * (\<bar>a\<bar> div \<bar>b\<bar>)"

definition c_mod :: "c_int \<Rightarrow> c_int \<Rightarrow> c_int" where
  "c_mod a b = a - b * c_div a b"

definition c_abs :: "c_int \<Rightarrow> c_int" where
  "c_abs x = wrap32 \<bar>x\<bar>"

definition c_floor :: "double \<Rightarrow> double" where
  "c_floor x = of_int \<lfloor>x\<rfloor>"

text \<open>Conversion of a \<^verbatim>\<open>double\<close> to \<^verbatim>\<open>int\<close>: the fraction is discarded (truncation towards
  zero); the result is undefined when the truncated value is not an \<^verbatim>\<open>int\<close>.\<close>

definition int_of_double :: "double \<Rightarrow> c_int option" where
  "int_of_double x =
     (let t = (if x < 0 then \<lceil>x\<rceil> else \<lfloor>x\<rfloor>)
      in if INT_MIN \<le> t \<and> t \<le> INT_MAX then Some t else None)"

text \<open>\<^verbatim>\<open>modf\<close> of the C library: the integral part (rounded towards zero) and the rest.\<close>

definition modf :: "double \<Rightarrow> double \<times> double" where
  "modf x =
     (let integer_part = (if x < 0 then of_int \<lceil>x\<rceil> else of_int \<lfloor>x\<rfloor>)
      in (x - integer_part, integer_part))"

text \<open>Modelled from the spec: the macro \<^verbatim>\<open>dint\<close> comes from SOFA's \<^verbatim>\<open>sofam.h\<close>, which is not
  among the sources. The spec takes the day as "the integer part" of the residual, and the
  source comments every use with "rounds towards 0".\<close>

definition dint :: "double \<Rightarrow> double" where
  "dint A = (if A < 0 then of_int \<lceil>A\<rceil> else of_int \<lfloor>A\<rfloor>)"

text \<open>An array read \<^verbatim>\<open>a[i]\<close>.\<close>

definition array_at :: "'a list \<Rightarrow> c_int \<Rightarrow> 'a option" where
  "array_at a i = (if 0 \<le> i \<and> i < int (length a) then Some (a ! nat i) else None)"

subsection \<open>\<^verbatim>\<open>alternate-jd-algos.c\<close>: calendar oracle and cycle model\<close>

definition NORMAL_YEAR_LEN :: c_int where
  "NORMAL_YEAR_LEN = 365"

definition LEAP_YEAR_LEN :: c_int where
  "LEAP_YEAR_LEN = 366"

definition MONTH_LEN_TABLE :: "c_int list" where
  "MONTH_LEN_TABLE = [31, 28, 31, 30, 31, 30, 31, 31, 30, 31, 30, 31]"

definition JAN_0_YEAR_0 :: double where
  "JAN_0_YEAR_0 = 1721058.5"

definition FULL_CYCLE_YEARS :: c_int where
  "FULL_CYCLE_YEARS = 400"

definition FULL_CYCLE_DAYS :: c_int where
  "FULL_CYCLE_DAYS = (3 * NORMAL_YEAR_LEN + LEAP_YEAR_LEN) * 25 * 4 - 3"

definition is_leap :: "c_int \<Rightarrow> bool" where
  "is_leap y =
     (let is_century_year = (c_mod y 100 = 0)
      in if is_century_year then c_mod y 400 = 0 else c_mod y 4 = 0)"

definition year_len :: "c_int \<Rightarrow> c_int" where
  "year_len y = (if is_leap y then LEAP_YEAR_LEN else NORMAL_YEAR_LEN)"

text \<open>The loop of \<^verbatim>\<open>days_in_complete_years\<close>; \<^verbatim>\<open>++y\<close> cannot overflow below \<open>end_year\<close>.\<close>

function days_in_complete_years_loop :: "c_int \<Rightarrow> c_int \<Rightarrow> c_int \<Rightarrow> c_int" where
  "days_in_complete_years_loop y end_year result =
     (if y < end_year
      then days_in_complete_years_loop (y + 1) end_year (wrap32 (result + year_len y))
      else result)"
  by pat_completeness auto
termination
  by (relation "measure (\<lambda>(y, end_year, result). nat (end_year - y))") auto

declare days_in_complete_years_loop.simps [simp del]

definition days_in_complete_years :: "c_int \<Rightarrow> c_int \<Rightarrow> c_int" where
  "days_in_complete_years start_year end_year =
     days_in_complete_years_loop start_year end_year 0"

text \<open>\<^verbatim>\<open>month_len\<close> reads \<^verbatim>\<open>MONTH_LEN_TABLE[m - 1]\<close> with no check of \<open>m\<close>.\<close>

definition month_len :: "c_int \<Rightarrow> c_int \<Rightarrow> c_int option" where
  "month_len y m =
     do {
       length \<leftarrow> array_at MONTH_LEN_TABLE (m - 1);
       let has_leap_day = (is_leap y \<and> m = 2);
       Some (if has_leap_day then length + 1 else length)
     }"

function days_from_jan0_loop :: "c_int \<Rightarrow> c_int \<Rightarrow> c_int \<Rightarrow> c_int \<Rightarrow> c_int option" where
  "days_from_jan0_loop y m completed_month days_in_completed_months =
     (if completed_month < m
      then (case month_len y completed_month of
              None \<Rightarrow> None
            | Some l \<Rightarrow>
                days_from_jan0_loop y m (completed_month + 1)
                  (wrap32 (days_in_completed_months + l)))
      else Some days_in_completed_months)"
  by pat_completeness auto
termination
  by (relation "measure (\<lambda>(y, m, completed_month, acc). nat (m - completed_month))") auto

declare days_from_jan0_loop.simps [simp del]

definition days_from_jan0 :: "c_int \<Rightarrow> c_int \<Rightarrow> c_int \<Rightarrow> c_int option" where
  "days_from_jan0 y m d =
     do {
       days_in_completed_months \<leftarrow> days_from_jan0_loop y m 1 0;
       Some (wrap32 (days_in_completed_months + d))
     }"

definition days_remaining_in_month :: "c_int \<Rightarrow> c_int \<Rightarrow> c_int \<Rightarrow> c_int option" where
  "days_remaining_in_month y m d =
     do {
       length \<leftarrow> month_len y m;
       Some (wrap32 (length + 1 - d))
     }"

function days_from_dec32_loop :: "c_int \<Rightarrow> c_int \<Rightarrow> c_int \<Rightarrow> c_int \<Rightarrow> c_int option" where
  "days_from_dec32_loop y m completed_month days_in_completed_months =
     (if completed_month > m
      then (case month_len y completed_month of
              None \<Rightarrow> None
            | Some l \<Rightarrow>
                days_from_dec32_loop y m (completed_month - 1)
                  (wrap32 (days_in_completed_months + l)))
      else Some days_in_completed_months)"
  by pat_completeness auto
termination
  by (relation "measure (\<lambda>(y, m, completed_month, acc). nat (completed_month - m))") auto

declare days_from_dec32_loop.simps [simp del]

definition days_from_dec32 :: "c_int \<Rightarrow> c_int \<Rightarrow> c_int \<Rightarrow> c_int option" where
  "days_from_dec32 y m d =
     do {
       days_in_completed_months \<leftarrow> days_from_dec32_loop y m 12 0;
       remaining \<leftarrow> days_remaining_in_month y m d;
       Some (wrap32 (days_in_completed_months + remaining))
     }"

subsection \<open>\<^verbatim>\<open>alternate-jd-algos.c\<close>: calendar date to Julian Date\<close>

text \<open>The engines return the pair written to \<^verbatim>\<open>(*djm0, *djm)\<close>. The sum that gives \<open>jd\<close> is a
  \<^verbatim>\<open>double\<close> sum, from the left.\<close>

definition cal2jd_non_neg_years :: "c_int \<Rightarrow> c_int \<Rightarrow> c_int \<Rightarrow> (double \<times> double) option" where
  "cal2jd_non_neg_years iy im id' =
     do {
       let num_cycles = c_div iy FULL_CYCLE_YEARS;
       let full_cycles = wrap32 (num_cycles * FULL_CYCLE_DAYS);
       let remainder_years = days_in_complete_years (wrap32 (num_cycles * FULL_CYCLE_YEARS)) iy;
       remainder_days \<leftarrow> days_from_jan0 iy im id';
       let jd = JAN_0_YEAR_0 + of_int full_cycles + of_int remainder_years + of_int remainder_days;
       Some (jd, 0)
     }"

definition cal2jd_neg_years :: "c_int \<Rightarrow> c_int \<Rightarrow> c_int \<Rightarrow> (double \<times> double) option" where
  "cal2jd_neg_years iy im id' =
     do {
       let y_biased = wrap32 (iy + 1);
       let num_cycles = c_div y_biased FULL_CYCLE_YEARS;
       let full_cycles = c_abs (wrap32 (num_cycles * FULL_CYCLE_DAYS));
       let remainder_years =
         days_in_complete_years y_biased (wrap32 (num_cycles * FULL_CYCLE_YEARS));
       remainder_days \<leftarrow> days_from_dec32 iy im id';
       let OVERHANG = 1;
       let total = wrap32 (wrap32 (full_cycles + remainder_years) + remainder_days);
       let jd = JAN_0_YEAR_0 + of_int OVERHANG - of_int total;
       Some (jd, 0)
     }"

definition alternate_cal2jd :: "c_int \<Rightarrow> c_int \<Rightarrow> c_int \<Rightarrow> (double \<times> double) option" where
  "alternate_cal2jd iy im id' =
     (if iy \<ge> 0 then cal2jd_non_neg_years iy im id' else cal2jd_neg_years iy im id')"

text \<open>The public function: the status is \<open>0\<close> (Ok), \<open>-2\<close> (bad month) or \<open>-3\<close> (bad day).
  A bad month returns before anything is written to the outputs \<open>out\<close>. Past that
  return \<open>im - 1\<close> is an index of the table, which is read directly.\<close>

definition alternate_iauCal2jd ::
  "c_int \<Rightarrow> c_int \<Rightarrow> c_int \<Rightarrow> double \<times> double \<Rightarrow> c_int \<times> (double \<times> double) option" where
  "alternate_iauCal2jd iy im id' out =
     (if im < 1 \<or> im > 12 then (- 2, Some out)
      else
        let ly = (if im = 2 \<and> c_mod iy 4 = 0 \<and> (c_mod iy 100 \<noteq> 0 \<or> c_mod iy 400 = 0)
                  then 1 else 0 :: c_int);
            j = (if id' < 1 \<or> id' > MONTH_LEN_TABLE ! nat (im - 1) + ly then - 3 else 0)
        in (j, alternate_cal2jd iy im id'))"

subsection \<open>\<^verbatim>\<open>alternate-jd-algos.c\<close>: Julian Date to calendar date\<close>

text \<open>The four outputs \<^verbatim>\<open>(*iy, *im, *id, *fd)\<close>.\<close>

type_synonym calendar = "c_int \<times> c_int \<times> c_int \<times> double"

text \<open>The loop over the remainder-years of \<^verbatim>\<open>jd2cal_non_neg_years\<close>: it returns the final
  \<open>(temp_target, year)\<close>.\<close>

function jd2cal_non_neg_years_loop ::
  "double \<Rightarrow> c_int \<Rightarrow> c_int \<Rightarrow> double \<Rightarrow> c_int \<Rightarrow> double \<times> c_int" where
  "jd2cal_non_neg_years_loop target year_full_cycles remainder_year_idx temp_target year =
     (if remainder_year_idx < FULL_CYCLE_YEARS
      then
        let one_more_year = of_int (year_len (wrap32 (year_full_cycles + remainder_year_idx)))
        in if temp_target + one_more_year \<le> target
           then jd2cal_non_neg_years_loop target year_full_cycles (remainder_year_idx + 1)
                  (temp_target + one_more_year) (wrap32 (year + 1))
           else (temp_target, year)
      else (temp_target, year))"
  by pat_completeness auto
termination
  by (relation "measure (\<lambda>(t, yfc, idx, tt, y). nat (FULL_CYCLE_YEARS - idx))") auto

declare jd2cal_non_neg_years_loop.simps [simp del]

text \<open>The loop over the months: it returns the final \<open>(temp_target, month)\<close>.\<close>

function jd2cal_non_neg_years_months ::
  "double \<Rightarrow> c_int \<Rightarrow> c_int \<Rightarrow> double \<Rightarrow> c_int \<Rightarrow> (double \<times> c_int) option" where
  "jd2cal_non_neg_years_months target year month_idx temp_target month =
     (if month_idx \<le> 12
      then (case month_len year month_idx of
              None \<Rightarrow> None
            | Some l \<Rightarrow>
                let one_more_month = of_int l
                in if temp_target + one_more_month \<le> target
                   then jd2cal_non_neg_years_months target year (month_idx + 1)
                          (temp_target + one_more_month) (month + 1)
                   else Some (temp_target, month))
      else Some (temp_target, month))"
  by pat_completeness auto
termination
  by (relation "measure (\<lambda>(t, y, idx, tt, m). nat (13 - idx))") auto

declare jd2cal_non_neg_years_months.simps [simp del]

definition jd2cal_non_neg_years :: "double \<Rightarrow> calendar option" where
  "jd2cal_non_neg_years jd =
     do {
       let BASE = JAN_0_YEAR_0 + 1;
       let target = jd - BASE;
       num_full_cycles \<leftarrow> int_of_double (c_floor (target / of_int FULL_CYCLE_DAYS));
       let year = wrap32 (num_full_cycles * FULL_CYCLE_YEARS);
       let temp_target = of_int (wrap32 (num_full_cycles * FULL_CYCLE_DAYS));
       let year_full_cycles = year;
       let (temp_target, year) =
         jd2cal_non_neg_years_loop target year_full_cycles 0 temp_target year;
       (temp_target, month) \<leftarrow> jd2cal_non_neg_years_months target year 1 temp_target 1;
       let days = target - temp_target + 1;
       day \<leftarrow> int_of_double (dint days);
       Some (year, month, day, days - of_int day)
     }"

function jd2cal_neg_years_loop ::
  "double \<Rightarrow> c_int \<Rightarrow> c_int \<Rightarrow> double \<Rightarrow> c_int \<Rightarrow> double \<times> c_int" where
  "jd2cal_neg_years_loop target year_full_cycles remainder_year_idx temp_target year =
     (if remainder_year_idx < FULL_CYCLE_YEARS
      then
        let one_less_year = of_int (year_len (wrap32 (year_full_cycles - remainder_year_idx)))
        in if temp_target - one_less_year > target
           then jd2cal_neg_years_loop target year_full_cycles (remainder_year_idx + 1)
                  (temp_target - one_less_year) (wrap32 (year - 1))
           else (temp_target, year)
      else (temp_target, year))"
  by pat_completeness auto
termination
  by (relation "measure (\<lambda>(t, yfc, idx, tt, y). nat (FULL_CYCLE_YEARS - idx))") auto

declare jd2cal_neg_years_loop.simps [simp del]

function jd2cal_neg_years_months ::
  "double \<Rightarrow> c_int \<Rightarrow> c_int \<Rightarrow> double \<Rightarrow> c_int \<Rightarrow> (double \<times> c_int) option" where
  "jd2cal_neg_years_months target year month_idx temp_target month =
     (if month_idx \<ge> 1
      then (case month_len year month_idx of
              None \<Rightarrow> None
            | Some l \<Rightarrow>
                let one_less_month = of_int l
                in if temp_target - one_less_month > target
                   then jd2cal_neg_years_months target year (month_idx - 1)
                          (temp_target - one_less_month) (month - 1)
                   else Some (temp_target, month))
      else Some (temp_target, month))"
  by pat_completeness auto
termination
  by (relation "measure (\<lambda>(t, y, idx, tt, m). nat idx)") auto

declare jd2cal_neg_years_months.simps [simp del]

definition jd2cal_neg_years :: "double \<Rightarrow> calendar option" where
  "jd2cal_neg_years jd =
     do {
       let BASE = JAN_0_YEAR_0 + 1;
       let target = jd - BASE;
       num_full_cycles \<leftarrow> int_of_double (c_floor (target / of_int FULL_CYCLE_DAYS) + 1);
       let year = wrap32 (num_full_cycles * FULL_CYCLE_YEARS);
       let year = wrap32 (year - 1);
       let temp_target = of_int (wrap32 (num_full_cycles * FULL_CYCLE_DAYS));
       let year_full_cycles = year;
       let (temp_target, year) =
         jd2cal_neg_years_loop target year_full_cycles 0 temp_target year;
       (temp_target, month) \<leftarrow> jd2cal_neg_years_months target year 12 temp_target 12;
       length \<leftarrow> month_len year month;
       let days = of_int (length + 1) + target - temp_target;
       day \<leftarrow> int_of_double (dint days);
       Some (year, month, day, days - of_int day)
     }"

definition alternate_jd2Cal :: "double \<Rightarrow> double \<Rightarrow> calendar option" where
  "alternate_jd2Cal dj1 dj2 =
     (let jan_1_year_0 = JAN_0_YEAR_0 + 1;
          jd = dj1 + dj2
      in if jd \<ge> jan_1_year_0 then jd2cal_non_neg_years jd else jd2cal_neg_years jd)"

text \<open>The public function: the status is \<open>0\<close> (Ok) or \<open>-1\<close> (the date is beyond \<open>DJMAX\<close>).
  Between the range check and the call of the engine the source separates day and fraction
  and sums \<^verbatim>\<open>f1 + f2 + 0.5\<close> with a compensated summation into \<^verbatim>\<open>jd\<close> and \<^verbatim>\<open>f\<close>; neither is
  read afterwards ("At the moment, it is simply abandoned here"), and the engine is
  called on \<^verbatim>\<open>dj1\<close> and \<^verbatim>\<open>dj2\<close> themselves. The block has no part in the outputs; it
  rests on the macros \<^verbatim>\<open>dnint\<close> and \<^verbatim>\<open>gmax\<close> of \<^verbatim>\<open>sofam.h\<close>, which is not among the sources,
  and is not modelled.\<close>

definition DJMAX :: double where
  "DJMAX = 1000000000"

definition alternate_iauJd2cal ::
  "double \<Rightarrow> double \<Rightarrow> calendar \<Rightarrow> c_int \<times> calendar option" where
  "alternate_iauJd2cal dj1 dj2 out =
     (let dj = dj1 + dj2
      in if dj > DJMAX then (- 1, Some out) else (0, alternate_jd2Cal dj1 dj2))"

subsection \<open>\<^verbatim>\<open>alternate-cal2jd.c\<close>: the terse calendar date to Julian Date\<close>

text \<open>The constants \<^verbatim>\<open>CYCLE_YEARS\<close>, \<^verbatim>\<open>SHORT_YR\<close>, \<^verbatim>\<open>LONG_YR\<close> and \<^verbatim>\<open>MONTH_LEN\<close> are declared
  with the same values in \<^verbatim>\<open>alternate-cal2jd.c\<close> and \<^verbatim>\<open>alternate-jd2cal.c\<close>, and
  \<^verbatim>\<open>JAN_0_YEAR_0\<close> is the constant of \<^verbatim>\<open>alternate-jd-algos.c\<close> again.\<close>

definition CYCLE_YEARS :: c_int where
  "CYCLE_YEARS = 400"

definition SHORT_YR :: c_int where
  "SHORT_YR = 365"

definition LONG_YR :: c_int where
  "LONG_YR = 366"

definition MONTH_LEN :: "c_int list" where
  "MONTH_LEN = [31, 28, 31, 30, 31, 30, 31, 31, 30, 31, 30, 31]"

definition DAYS_IN_PRECEDING_MONTHS :: "c_int list" where
  "DAYS_IN_PRECEDING_MONTHS = [0, 31, 59, 90, 120, 151, 181, 212, 243, 273, 304, 334]"

text \<open>The day \<open>d\<close> is a \<^verbatim>\<open>double\<close> parameter; the sum of the year lengths is an \<^verbatim>\<open>int\<close>
  expression, everything added to \<open>res\<close> afterwards is added as a \<^verbatim>\<open>double\<close>.\<close>

definition gregorian_cal_to_julian_date ::
  "c_int \<Rightarrow> c_int \<Rightarrow> double \<Rightarrow> (double \<times> double) option" where
  "gregorian_cal_to_julian_date y m d =
     do {
       let y_p = (if y \<ge> 0 then wrap32 (y - 1) else y);
       let num_366yrs =
         wrap32 (wrap32 (c_div y_p 4 - c_div y_p 100) + c_div y_p CYCLE_YEARS);
       let num_366yrs = (if y > 0 then wrap32 (num_366yrs + 1) else num_366yrs);
       let num_365yrs = wrap32 (y - num_366yrs);
       let res = of_int (wrap32 (wrap32 (num_365yrs * SHORT_YR) + wrap32 (num_366yrs * LONG_YR)));
       preceding \<leftarrow> array_at DAYS_IN_PRECEDING_MONTHS (m - 1);
       let res = res + of_int preceding;
       let is_leap = (if c_mod y 100 = 0 then c_mod y 400 = 0 else c_mod y 4 = 0);
       let res = res + (if is_leap \<and> m - 1 \<ge> 2 then 1 else 0);
       let res = res + d;
       let res = res + JAN_0_YEAR_0;
       Some (res, 0)
     }"

definition terse_alternate_iauCal2jd ::
  "c_int \<Rightarrow> c_int \<Rightarrow> c_int \<Rightarrow> double \<times> double \<Rightarrow> c_int \<times> (double \<times> double) option" where
  "terse_alternate_iauCal2jd iy im id' out =
     (if im < 1 \<or> im > 12 then (- 2, Some out)
      else
        let ly = (if im = 2 \<and> c_mod iy 4 = 0 \<and> (c_mod iy 100 \<noteq> 0 \<or> c_mod iy 400 = 0)
                  then 1 else 0 :: c_int);
            j = (if id' < 1 \<or> id' > MONTH_LEN ! nat (im - 1) + ly then - 3 else 0)
        in (j, gregorian_cal_to_julian_date iy im (of_int id')))"

subsection \<open>\<^verbatim>\<open>alternate-jd2cal.c\<close>: the terse Julian Date to calendar date\<close>

definition JAN_1_YEAR_0 :: double where
  "JAN_1_YEAR_0 = 1721058.5 + 1.0"

definition CYCLE_DAYS :: c_int where
  "CYCLE_DAYS =
     SHORT_YR * CYCLE_YEARS + c_div CYCLE_YEARS 4 - c_div CYCLE_YEARS 100
       + c_div CYCLE_YEARS CYCLE_YEARS"

text \<open>\<^verbatim>\<open>is_leap\<close> of this file has the body of \<open>is_leap\<close> above.\<close>

definition the_month_len :: "c_int \<Rightarrow> c_int \<Rightarrow> c_int option" where
  "the_month_len y m =
     do {
       length \<leftarrow> array_at MONTH_LEN (m - 1);
       let has_leap_day = (is_leap y \<and> m = 2);
       Some (if has_leap_day then length + 1 else length)
     }"

text \<open>The loop that finds the rest of the remainder-years: it returns the final
  \<open>(cursor, year)\<close>.\<close>

function julian_date_to_gregorian_cal_years ::
  "double \<Rightarrow> c_int \<Rightarrow> c_int \<Rightarrow> double \<Rightarrow> c_int \<Rightarrow> double \<times> c_int" where
  "julian_date_to_gregorian_cal_years jd_minus_base year_so_far more cursor year =
     (if more < CYCLE_YEARS
      then
        let year_length = (if is_leap (wrap32 (year_so_far + more)) then LONG_YR else SHORT_YR)
        in if cursor + of_int year_length \<le> jd_minus_base
           then julian_date_to_gregorian_cal_years jd_minus_base year_so_far (more + 1)
                  (cursor + of_int year_length) (wrap32 (year + 1))
           else (cursor, year)
      else (cursor, year))"
  by pat_completeness auto
termination
  by (relation "measure (\<lambda>(t, ysf, more, c, y). nat (CYCLE_YEARS - more))") auto

declare julian_date_to_gregorian_cal_years.simps [simp del]

text \<open>The loop over the months, where \<open>month\<close> is both the index and the result: it returns
  the final \<open>(month, fractional_days)\<close>, which is \<open>(13, 0.0)\<close> when the loop runs to its
  end.\<close>

function julian_date_to_gregorian_cal_months ::
  "double \<Rightarrow> c_int \<Rightarrow> c_int \<Rightarrow> double \<Rightarrow> (c_int \<times> double) option" where
  "julian_date_to_gregorian_cal_months jd_minus_base year month cursor =
     (if month \<le> 12
      then (case array_at MONTH_LEN (month - 1) of
              None \<Rightarrow> None
            | Some l \<Rightarrow>
                let month_length = (if is_leap year \<and> month = 2 then l + 1 else l)
                in if cursor + of_int month_length \<le> jd_minus_base
                   then julian_date_to_gregorian_cal_months jd_minus_base year (month + 1)
                          (cursor + of_int month_length)
                   else Some (month, jd_minus_base - cursor + 1))
      else Some (month, 0))"
  by pat_completeness auto
termination
  by (relation "measure (\<lambda>(t, y, m, c). nat (13 - m))") auto

declare julian_date_to_gregorian_cal_months.simps [simp del]

definition julian_date_to_gregorian_cal :: "double \<Rightarrow> double \<Rightarrow> calendar option" where
  "julian_date_to_gregorian_cal dj1 dj2 =
     do {
       let jd = dj1 + dj2;
       num_cycles \<leftarrow> int_of_double (c_floor ((jd - JAN_1_YEAR_0) / of_int CYCLE_DAYS));
       let base_jd = JAN_1_YEAR_0 + of_int (wrap32 (num_cycles * CYCLE_DAYS));
       let year = wrap32 (num_cycles * CYCLE_YEARS);
       let jd_minus_base = jd - base_jd;
       let cursor = 0;
       approx_days \<leftarrow> int_of_double (c_floor jd_minus_base);
       let more_years = wrap32 (c_div approx_days LONG_YR - 1);
       let (cursor, year) =
         (if more_years > 0
          then
            let m_p = more_years - 1;
                more_days =
                  wrap32 (wrap32 (wrap32 (wrap32 (wrap32 (more_years * SHORT_YR) + c_div m_p 4)
                    - c_div m_p 100) + c_div m_p 400) + 1)
            in (cursor + of_int more_days, wrap32 (year + more_years))
          else (cursor, year));
       let year_so_far = year;
       let (cursor, year) =
         julian_date_to_gregorian_cal_years jd_minus_base year_so_far 0 cursor year;
       (month, fractional_days) \<leftarrow>
         julian_date_to_gregorian_cal_months jd_minus_base year 1 cursor;
       let (fraction, integer_part) = modf fractional_days;
       day \<leftarrow> int_of_double integer_part;
       Some (year, month, day, fraction)
     }"


subsection \<open>Day numbers\<close>

text \<open>The reference the engines are verified against: \<open>dby y\<close> is the number of days from
  January 1 of year 0 to January 1 of year \<open>y\<close> in the proleptic Gregorian calendar,
  \<open>ml y m\<close> the length of month \<open>m\<close> and \<open>dbm y m\<close> the number of days of year \<open>y\<close> before
  its month \<open>m\<close>. Day \<open>d\<close> of month \<open>m\<close> of year \<open>y\<close> starts \<open>dby y + dbm y m + d - 1\<close> days
  after January 1 of year 0.\<close>

definition dby :: "int \<Rightarrow> int" where
  "dby y = 365 * y + (y + 3) div 4 - (y + 99) div 100 + (y + 399) div 400"

definition ml :: "int \<Rightarrow> int \<Rightarrow> int" where
  "ml y m =
     (if m = 2 then (if is_leap y then 29 else 28)
      else if m = 4 \<or> m = 6 \<or> m = 9 \<or> m = 11 then 30 else 31)"

definition dbm :: "int \<Rightarrow> int \<Rightarrow> int" where
  "dbm y m =
     [0, 31, 59, 90, 120, 151, 181, 212, 243, 273, 304, 334, 365] ! nat (m - 1)
       + (if is_leap y \<and> 2 < m then 1 else 0)"

text \<open>\<open>on_day t y m d\<close>: the instant \<open>t\<close>, in days after January 1.0 of year 0, falls on day
  \<open>d\<close> of month \<open>m\<close> of year \<open>y\<close>, a day of the calendar.\<close>

definition day_start :: "int \<Rightarrow> int \<Rightarrow> int \<Rightarrow> int" where
  "day_start y m d = dby y + dbm y m + d - 1"

definition on_day :: "real \<Rightarrow> int \<Rightarrow> int \<Rightarrow> int \<Rightarrow> bool" where
  "on_day t y m d \<longleftrightarrow>
     1 \<le> m \<and> m \<le> 12 \<and> 1 \<le> d \<and> d \<le> ml y m \<and>
     of_int (day_start y m d) \<le> t \<and> t < of_int (day_start y m d) + 1"

section \<open>Auxiliary facts\<close>

subsection \<open>C arithmetic and the calendar\<close>

lemma wrap32_id: "- 2147483648 \<le> x \<Longrightarrow> x \<le> 2147483647 \<Longrightarrow> wrap32 x = x"
  by (simp add: wrap32_def)

lemma c_div_nonneg: "0 \<le> a \<Longrightarrow> 0 < b \<Longrightarrow> c_div a b = a div b"
  by (cases "a = 0") (simp_all add: c_div_def)

lemma c_div_neg: "a < 0 \<Longrightarrow> 0 < b \<Longrightarrow> c_div a b = - ((- a) div b)"
  by (simp add: c_div_def)

lemma c_mod_zero_iff: "0 < b \<Longrightarrow> c_mod a b = 0 \<longleftrightarrow> b dvd a"
proof (cases "0 \<le> a")
  case True
  assume "0 < b"
  with True show ?thesis
    by (simp add: c_mod_def c_div_nonneg minus_mult_div_eq_mod mod_eq_0_iff_dvd)
next
  case False
  assume b: "0 < b"
  with False have "c_mod a b = - ((- a) mod b)"
    by (simp add: c_mod_def c_div_neg minus_mult_div_eq_mod [symmetric] algebra_simps)
  then show ?thesis
    by (simp add: mod_eq_0_iff_dvd)
qed

lemma dvd_400_100: "400 dvd y \<Longrightarrow> 100 dvd y" for y :: int
  by (rule dvd_trans [of 100 400 y]) simp_all

lemma dvd_100_4: "100 dvd y \<Longrightarrow> 4 dvd y" for y :: int
  by (rule dvd_trans [of 4 100 y]) simp_all

lemma is_leap_iff: "is_leap y \<longleftrightarrow> 4 dvd y \<and> (100 dvd y \<longrightarrow> 400 dvd y)"
proof (cases "100 dvd y")
  case True
  then show ?thesis
    using dvd_100_4 [of y] dvd_400_100 [of y]
    by (simp add: is_leap_def c_mod_zero_iff)
next
  case False
  then show ?thesis
    by (simp add: is_leap_def c_mod_zero_iff)
qed

lemma step_div:
  fixes y k :: int
  assumes "0 < k"
  shows "(y + k) div k = (y + (k - 1)) div k + (if k dvd y then 1 else 0)"
proof -
  define q r where "q = y div k" and "r = y mod k"
  have y: "y = q * k + r" and r: "0 \<le> r" "r < k"
    using assms by (simp_all add: q_def r_def)
  have a: "(y + k) div k = q + 1"
    using assms by (simp add: q_def)
  show ?thesis
  proof (cases "r = 0")
    case True
    have e: "y + (k - 1) = k - 1 + q * k"
      using y True by simp
    have z: "(k - 1) div k = 0"
      using assms by (simp add: div_pos_pos_trivial)
    have "(y + (k - 1)) div k = q"
      unfolding e using assms div_mult_self1 [of k "k - 1" q] z by simp
    moreover have "k dvd y"
      using True by (simp add: r_def dvd_eq_mod_eq_0)
    ultimately show ?thesis
      using a by simp
  next
    case False
    have e: "y + (k - 1) = r - 1 + (q + 1) * k"
      using y by (simp add: algebra_simps)
    have z: "(r - 1) div k = 0"
      using r False by (simp add: div_pos_pos_trivial)
    have "(y + (k - 1)) div k = q + 1"
      unfolding e using assms div_mult_self1 [of k "r - 1" "q + 1"] z by simp
    moreover have "\<not> k dvd y"
      using False by (simp add: r_def dvd_eq_mod_eq_0)
    ultimately show ?thesis
      using a by simp
  qed
qed

lemma dby_Suc: "dby (y + 1) = dby y + year_len y"
proof -
  have 4: "(y + 1 + 3) div 4 = (y + 3) div 4 + (if 4 dvd y then 1 else 0)"
    using step_div [of 4 y] by simp
  have 100: "(y + 1 + 99) div 100 = (y + 99) div 100 + (if 100 dvd y then 1 else 0)"
    using step_div [of 100 y] by simp
  have 400: "(y + 1 + 399) div 400 = (y + 399) div 400 + (if 400 dvd y then 1 else 0)"
    using step_div [of 400 y] by simp
  have d: "dby (y + 1) - dby y =
      365 + (if 4 dvd y then 1 else 0) - (if 100 dvd y then 1 else 0) + (if 400 dvd y then 1 else 0)"
    unfolding dby_def 4 100 400 by simp
  show ?thesis
  proof (cases "4 dvd y")
    case False
    with dvd_100_4 [of y] dvd_400_100 [of y] have "\<not> 100 dvd y" "\<not> 400 dvd y" by blast+
    with False d show ?thesis
      by (simp add: year_len_def is_leap_iff NORMAL_YEAR_LEN_def)
  next
    case True
    show ?thesis
    proof (cases "100 dvd y")
      case False
      with dvd_400_100 [of y] have "\<not> 400 dvd y" by blast
      with True False d show ?thesis
        by (simp add: year_len_def is_leap_iff LEAP_YEAR_LEN_def)
    next
      case c: True
      with True d show ?thesis
        by (cases "400 dvd y")
          (simp_all add: year_len_def is_leap_iff LEAP_YEAR_LEN_def NORMAL_YEAR_LEN_def)
    qed
  qed
qed

lemma dby_400: "dby (y + 400) = dby y + 146097"
proof -
  have "(y + 400 + 3) div 4 = (y + 3) div 4 + 100"
    using div_mult_self1 [of 4 "y + 3" 100] by (simp add: ac_simps)
  moreover have "(y + 400 + 99) div 100 = (y + 99) div 100 + 4"
    using div_mult_self1 [of 100 "y + 99" 4] by (simp add: ac_simps)
  moreover have "(y + 400 + 399) div 400 = (y + 399) div 400 + 1"
    using div_mult_self1 [of 400 "y + 399" 1] by (simp add: ac_simps)
  ultimately show ?thesis
    unfolding dby_def by simp
qed

lemma dby_cycle: "dby (400 * n) = 146097 * n"
proof -
  have "(400 * n + 3) div 4 = 100 * n"
    using div_mult_self1 [of 4 3 "100 * n"] by (simp add: ac_simps)
  moreover have "(400 * n + 99) div 100 = 4 * n"
    using div_mult_self1 [of 100 99 "4 * n"] by (simp add: ac_simps)
  moreover have "(400 * n + 399) div 400 = n"
    using div_mult_self1 [of 400 399 n] by (simp add: ac_simps)
  ultimately show ?thesis
    unfolding dby_def by simp
qed

lemma year_len_bounds: "365 \<le> year_len y" "year_len y \<le> 366"
  by (simp_all add: year_len_def LEAP_YEAR_LEN_def NORMAL_YEAR_LEN_def)

lemma dby_diff_bounds:
  assumes "y \<le> z"
  shows "365 * (z - y) \<le> dby z - dby y \<and> dby z - dby y \<le> 366 * (z - y)"
  using assms
proof (induction z rule: int_ge_induct)
  case base
  show ?case by simp
next
  case (step i)
  with year_len_bounds [of i] show ?case
    by (simp add: dby_Suc)
qed

lemma dby_mono: "y \<le> z \<Longrightarrow> dby y \<le> dby z"
  using dby_diff_bounds [of y z] by simp

lemma days_in_complete_years_loop_eq:
  "y \<le> e \<Longrightarrow> - 2147483648 \<le> r \<Longrightarrow> r + (dby e - dby y) \<le> 2147483647 \<Longrightarrow>
     days_in_complete_years_loop y e r = r + (dby e - dby y)"
proof (induction y e r rule: days_in_complete_years_loop.induct)
  case (1 y e r)
  show ?case
  proof (cases "y < e")
    case False
    with "1.prems" show ?thesis
      by (subst days_in_complete_years_loop.simps) simp
  next
    case True
    have s: "dby (y + 1) = dby y + year_len y" by (rule dby_Suc)
    have m: "dby (y + 1) \<le> dby e" using True by (simp add: dby_mono)
    have w: "wrap32 (r + year_len y) = r + year_len y"
      using "1.prems" year_len_bounds [of y] s m by (intro wrap32_id) linarith+
    have "y + 1 \<le> e" "- 2147483648 \<le> r + year_len y"
      "r + year_len y + (dby e - dby (y + 1)) \<le> 2147483647"
      using True "1.prems" year_len_bounds [of y] s by linarith+
    then have "days_in_complete_years_loop (y + 1) e (wrap32 (r + year_len y))
        = wrap32 (r + year_len y) + (dby e - dby (y + 1))"
      unfolding w by (rule "1.IH" [OF True, unfolded w])
    then show ?thesis
      using True s w by (subst days_in_complete_years_loop.simps) simp
  qed
qed

lemma days_in_complete_years_eq:
  "y \<le> e \<Longrightarrow> dby e - dby y \<le> 2147483647 \<Longrightarrow> days_in_complete_years y e = dby e - dby y"
  unfolding days_in_complete_years_def
  using days_in_complete_years_loop_eq [of y e 0] by simp

lemma month_cases:
  fixes m :: int
  assumes "1 \<le> m" "m \<le> 12"
  obtains "m = 1" | "m = 2" | "m = 3" | "m = 4" | "m = 5" | "m = 6"
    | "m = 7" | "m = 8" | "m = 9" | "m = 10" | "m = 11" | "m = 12"
proof -
  have "m = 1 \<or> m = 2 \<or> m = 3 \<or> m = 4 \<or> m = 5 \<or> m = 6
      \<or> m = 7 \<or> m = 8 \<or> m = 9 \<or> m = 10 \<or> m = 11 \<or> m = 12"
    using assms by presburger
  then show thesis
    using that by blast
qed

lemma month_len_eq: "1 \<le> m \<Longrightarrow> m \<le> 12 \<Longrightarrow> month_len y m = Some (ml y m)"
  by (erule (1) month_cases)
    (simp_all add: month_len_def array_at_def MONTH_LEN_TABLE_def ml_def)

lemma dbm_1: "dbm y 1 = 0"
  by (simp add: dbm_def)

lemma dbm_13: "dbm y 13 = year_len y"
  by (simp add: dbm_def year_len_def LEAP_YEAR_LEN_def NORMAL_YEAR_LEN_def)

lemma dbm_Suc: "1 \<le> m \<Longrightarrow> m \<le> 12 \<Longrightarrow> dbm y (m + 1) = dbm y m + ml y m"
  by (erule (1) month_cases) (simp_all add: dbm_def ml_def)

lemma ml_bounds: "28 \<le> ml y m" "ml y m \<le> 31"
  by (simp_all add: ml_def)

lemma dbm_bounds: "1 \<le> m \<Longrightarrow> m \<le> 13 \<Longrightarrow> 0 \<le> dbm y m \<and> dbm y m \<le> 366"
proof -
  assume "1 \<le> m" "m \<le> 13"
  then consider "m = 13" | "1 \<le> m" "m \<le> 12" by arith
  then show ?thesis
  proof cases
    case 1
    then show ?thesis by (simp add: dbm_def)
  next
    case 2
    then show ?thesis
      by (elim month_cases) (simp_all add: dbm_def)
  qed
qed

subsection \<open>Calendar date to Julian Date\<close>

lemma dbm_mono_aux: "a \<le> b \<Longrightarrow> 1 \<le> a \<Longrightarrow> b \<le> 13 \<Longrightarrow> dbm y a \<le> dbm y b"
proof (induction b rule: int_ge_induct)
  case base
  show ?case by simp
next
  case (step i)
  with ml_bounds [of y i] show ?case
    by (simp add: dbm_Suc)
qed

lemma dbm_mono: "1 \<le> a \<Longrightarrow> a \<le> b \<Longrightarrow> b \<le> 13 \<Longrightarrow> dbm y a \<le> dbm y b"
  by (rule dbm_mono_aux)

lemma days_from_jan0_loop_eq:
  "1 \<le> cm \<Longrightarrow> cm \<le> m \<Longrightarrow> m \<le> 13 \<Longrightarrow> - 2147483648 \<le> acc \<Longrightarrow>
   acc + (dbm y m - dbm y cm) \<le> 2147483647 \<Longrightarrow>
     days_from_jan0_loop y m cm acc = Some (acc + (dbm y m - dbm y cm))"
proof (induction y m cm acc rule: days_from_jan0_loop.induct)
  case (1 y m cm acc)
  show ?case
  proof (cases "cm < m")
    case False
    with "1.prems" show ?thesis
      by (subst days_from_jan0_loop.simps) simp
  next
    case True
    with "1.prems" have r: "1 \<le> cm" "cm \<le> 12" by simp_all
    then have l: "month_len y cm = Some (ml y cm)" by (rule month_len_eq)
    have s: "dbm y (cm + 1) = dbm y cm + ml y cm" using r by (rule dbm_Suc)
    have m: "dbm y (cm + 1) \<le> dbm y m" using True "1.prems" by (intro dbm_mono) simp_all
    have w: "wrap32 (acc + ml y cm) = acc + ml y cm"
      using "1.prems" ml_bounds [of y cm] s m by (intro wrap32_id) linarith+
    have "1 \<le> cm + 1" "cm + 1 \<le> m" "m \<le> 13" "- 2147483648 \<le> acc + ml y cm"
      "acc + ml y cm + (dbm y m - dbm y (cm + 1)) \<le> 2147483647"
      using True "1.prems" ml_bounds [of y cm] s by linarith+
    then have "days_from_jan0_loop y m (cm + 1) (wrap32 (acc + ml y cm))
        = Some (wrap32 (acc + ml y cm) + (dbm y m - dbm y (cm + 1)))"
      unfolding w by (rule "1.IH" [OF True l, unfolded w])
    then show ?thesis
      using True s w l by (subst days_from_jan0_loop.simps) simp
  qed
qed

lemma days_from_jan0_eq:
  "1 \<le> m \<Longrightarrow> m \<le> 12 \<Longrightarrow> days_from_jan0 y m d = Some (wrap32 (dbm y m + d))"
  using days_from_jan0_loop_eq [of 1 m 0 y] dbm_bounds [of m y]
  by (simp add: days_from_jan0_def dbm_1)

lemma days_from_dec32_loop_eq:
  "1 \<le> m \<Longrightarrow> m \<le> cm \<Longrightarrow> cm \<le> 12 \<Longrightarrow> - 2147483648 \<le> acc \<Longrightarrow>
   acc + (dbm y (cm + 1) - dbm y (m + 1)) \<le> 2147483647 \<Longrightarrow>
     days_from_dec32_loop y m cm acc = Some (acc + (dbm y (cm + 1) - dbm y (m + 1)))"
proof (induction y m cm acc rule: days_from_dec32_loop.induct)
  case (1 y m cm acc)
  show ?case
  proof (cases "cm > m")
    case False
    with "1.prems" have "cm = m" by simp
    then show ?thesis
      by (subst days_from_dec32_loop.simps) simp
  next
    case True
    with "1.prems" have r: "1 \<le> cm" "cm \<le> 12" by simp_all
    then have l: "month_len y cm = Some (ml y cm)" by (rule month_len_eq)
    have s: "dbm y (cm + 1) = dbm y cm + ml y cm" using r by (rule dbm_Suc)
    have m: "dbm y (m + 1) \<le> dbm y cm" using True "1.prems" by (intro dbm_mono) simp_all
    have w: "wrap32 (acc + ml y cm) = acc + ml y cm"
      using "1.prems" ml_bounds [of y cm] s m by (intro wrap32_id) linarith+
    have "1 \<le> m" "m \<le> cm - 1" "cm - 1 \<le> 12" "- 2147483648 \<le> acc + ml y cm"
      "acc + ml y cm + (dbm y (cm - 1 + 1) - dbm y (m + 1)) \<le> 2147483647"
      using True "1.prems" ml_bounds [of y cm] s by simp_all
    then have "days_from_dec32_loop y m (cm - 1) (wrap32 (acc + ml y cm))
        = Some (wrap32 (acc + ml y cm) + (dbm y (cm - 1 + 1) - dbm y (m + 1)))"
      unfolding w by (rule "1.IH" [OF True l, unfolded w])
    then show ?thesis
      using True s w l by (subst days_from_dec32_loop.simps) simp
  qed
qed

lemma days_from_dec32_eq:
  assumes "1 \<le> m" "m \<le> 12"
  shows "days_from_dec32 y m d
    = Some (wrap32 (year_len y - dbm y (m + 1) + wrap32 (ml y m + 1 - d)))"
proof -
  have "dbm y (m + 1) \<le> dbm y 13" "0 \<le> dbm y (m + 1)" "dbm y 13 \<le> 366"
    using assms dbm_mono [of "m + 1" 13 y] dbm_bounds [of "m + 1" y] dbm_bounds [of 13 y]
    by simp_all
  then have "days_from_dec32_loop y m 12 0 = Some (0 + (dbm y (12 + 1) - dbm y (m + 1)))"
    using assms by (intro days_from_dec32_loop_eq) simp_all
  then show ?thesis
    using assms by (simp add: days_from_dec32_def days_remaining_in_month_def month_len_eq dbm_13)
qed

lemma c_div_nonpos: "a \<le> 0 \<Longrightarrow> 0 < b \<Longrightarrow> c_div a b = - ((- a) div b)"
  by (cases "a = 0") (simp_all add: c_div_def)

lemma cal2jd_non_neg_years_eq:
  assumes "0 \<le> y" "y \<le> 5879999" "1 \<le> m" "m \<le> 12"
    and "- 2147483648 \<le> dbm y m + d" "dbm y m + d \<le> 2147483647"
  shows "cal2jd_non_neg_years y m d = Some (JAN_0_YEAR_0 + of_int (dby y + dbm y m + d), 0)"
proof -
  define n where "n = y div 400"
  have n: "0 \<le> n" "n \<le> 14699" "400 * n \<le> y" "y < 400 * n + 400"
    using assms(1,2) by (simp_all add: n_def pos_imp_zdiv_nonneg_iff zdiv_mono1 [of y 5879999 400, simplified])
  have c: "c_div y 400 = n"
    using assms(1) by (simp add: c_div_nonneg n_def)
  have d: "FULL_CYCLE_DAYS = 146097"
    by (simp add: FULL_CYCLE_DAYS_def NORMAL_YEAR_LEN_def LEAP_YEAR_LEN_def)
  have w1: "wrap32 (n * 146097) = n * 146097" and w2: "wrap32 (n * 400) = n * 400"
    using n by (simp_all add: wrap32_id)
  have "dby y - dby (n * 400) \<le> 366 * (y - n * 400)"
    using dby_diff_bounds [of "n * 400" y] n by simp
  then have "days_in_complete_years (n * 400) y = dby y - dby (n * 400)"
    using n by (intro days_in_complete_years_eq) simp_all
  then have r: "days_in_complete_years (n * 400) y = dby y - n * 146097"
    using dby_cycle [of n] by (simp add: ac_simps)
  have j: "days_from_jan0 y m d = Some (dbm y m + d)"
    using assms by (simp add: days_from_jan0_eq wrap32_id)
  show ?thesis
    by (simp add: cal2jd_non_neg_years_def Let_def c d FULL_CYCLE_YEARS_def w1 w2 r j)
qed

lemma cal2jd_neg_years_eq:
  assumes "y < 0" "1 \<le> m" "m \<le> 12" "d \<le> 2147483647"
    and "- dby (y + 1) \<le> 2147483647" "1 - dby y - dbm y m - d \<le> 2147483647"
  shows "cal2jd_neg_years y m d = Some (JAN_0_YEAR_0 + of_int (dby y + dbm y m + d), 0)"
proof -
  define k where "k = (- (y + 1)) div 400"
  have k: "0 \<le> k" "400 * k \<le> - (y + 1)" "- (y + 1) < 400 * k + 400"
    using assms(1) by (simp_all add: k_def pos_imp_zdiv_nonneg_iff)
  have y0: "dby (y + 1) \<le> 0"
    using dby_mono [of "y + 1" 0] assms(1) by (simp add: dby_def)
  have y1: "- 5883517 \<le> y + 1"
    using dby_diff_bounds [of "y + 1" 0] assms(1,5) by (simp add: dby_def)
  have wy: "wrap32 (y + 1) = y + 1"
    using assms(1) y1 by (simp add: wrap32_id)
  have c: "c_div (y + 1) FULL_CYCLE_YEARS = - k"
    using assms(1) by (simp add: c_div_nonpos FULL_CYCLE_YEARS_def k_def)
  have kk: "dby (- k * 400) = - k * 146097"
    using dby_cycle [of "- k"] by (simp add: ac_simps)
  have ky: "dby (y + 1) \<le> dby (- k * 400)"
    using k by (intro dby_mono) simp
  have k2: "k * 146097 \<le> 2147483647"
    using ky kk assms(5) by simp
  have w1: "wrap32 (- k * FULL_CYCLE_DAYS) = - k * 146097"
    and w2: "wrap32 (- k * FULL_CYCLE_YEARS) = - k * 400"
    using k k2
    by (simp_all add: wrap32_id FULL_CYCLE_YEARS_def FULL_CYCLE_DAYS_def NORMAL_YEAR_LEN_def
        LEAP_YEAR_LEN_def)
  have a: "c_abs (- k * 146097) = k * 146097"
    using k k2 by (simp add: c_abs_def wrap32_id)
  have "dby (- k * 400) - dby (y + 1) \<le> 366 * (- k * 400 - (y + 1))"
    using dby_diff_bounds [of "y + 1" "- k * 400"] k by simp
  then have "days_in_complete_years (y + 1) (- k * 400) = dby (- k * 400) - dby (y + 1)"
    using k by (intro days_in_complete_years_eq) simp_all
  then have r: "days_in_complete_years (y + 1) (- k * 400) = - k * 146097 - dby (y + 1)"
    using kk by simp
  have b: "0 \<le> year_len y - dbm y (m + 1)"
    using dbm_mono [of "m + 1" 13 y] assms(2,3) by (simp add: dbm_13)
  have s: "dby (y + 1) = dby y + year_len y" "dbm y (m + 1) = dbm y m + ml y m"
    using assms(2,3) by (simp_all add: dby_Suc dbm_Suc)
  define R where "R = year_len y - dbm y (m + 1) + (ml y m + 1 - d)"
  have R: "- 2147483648 \<le> R" "- dby (y + 1) + R \<le> 2147483647"
    "R = 1 - dby y - dbm y m - d + dby (y + 1)"
    using assms(4,6) ml_bounds [of y m] b s unfolding R_def by linarith+
  have w4: "wrap32 (ml y m + 1 - d) = ml y m + 1 - d"
    using R y0 b ml_bounds [of y m] assms(4) unfolding R_def by (intro wrap32_id) linarith+
  have w5: "wrap32 R = R"
    using R y0 by (intro wrap32_id) linarith+
  have j: "days_from_dec32 y m d = Some R"
    using assms(2,3) w5 by (simp add: days_from_dec32_eq w4 R_def)
  have w6: "wrap32 (k * 146097 + (- k * 146097 - dby (y + 1))) = - dby (y + 1)"
    using y0 assms(5) by (simp add: wrap32_id)
  have w7: "wrap32 (- dby (y + 1) + R) = - dby (y + 1) + R"
    using R y0 by (intro wrap32_id) linarith+
  have w8: "wrap32 (- dby (y + 1) + R) = 1 - dby y - dbm y m - d"
    unfolding w7 using R(3) by simp
  show ?thesis
    unfolding cal2jd_neg_years_def Let_def wy c w1 w2 r j a w6 Option.bind.simps w8
    by simp
qed

subsection \<open>The status of the forward conversion\<close>

lemma ly_eq:
  "(if m = 2 \<and> c_mod y 4 = 0 \<and> (c_mod y 100 \<noteq> 0 \<or> c_mod y 400 = 0) then 1 else 0 :: int)
     = (if is_leap y \<and> m = 2 then 1 else 0)"
  using dvd_400_100 [of y] dvd_100_4 [of y]
  by (auto simp add: is_leap_iff c_mod_zero_iff)

lemma mtab_ly:
  assumes "1 \<le> m" "m \<le> 12"
  shows "MONTH_LEN_TABLE ! nat (m - 1)
      + (if m = 2 \<and> c_mod y 4 = 0 \<and> (c_mod y 100 \<noteq> 0 \<or> c_mod y 400 = 0) then 1 else 0)
    = ml y m"
  unfolding ly_eq using assms
  by (elim month_cases) (simp_all add: MONTH_LEN_TABLE_def ml_def)

lemma mtab_ly_terse:
  assumes "1 \<le> m" "m \<le> 12"
  shows "MONTH_LEN ! nat (m - 1)
      + (if m = 2 \<and> c_mod y 4 = 0 \<and> (c_mod y 100 \<noteq> 0 \<or> c_mod y 400 = 0) then 1 else 0)
    = ml y m"
  unfolding ly_eq using assms
  by (elim month_cases) (simp_all add: MONTH_LEN_def ml_def)

lemma alternate_iauCal2jd_valid_month:
  assumes "1 \<le> m" "m \<le> 12"
  shows "alternate_iauCal2jd y m d out
    = (if d < 1 \<or> d > ml y m then - 3 else 0, alternate_cal2jd y m d)"
  unfolding alternate_iauCal2jd_def Let_def mtab_ly [OF assms] using assms by simp

lemma terse_alternate_iauCal2jd_valid_month:
  assumes "1 \<le> m" "m \<le> 12"
  shows "terse_alternate_iauCal2jd y m d out
    = (if d < 1 \<or> d > ml y m then - 3 else 0, gregorian_cal_to_julian_date y m (of_int d))"
  unfolding terse_alternate_iauCal2jd_def Let_def mtab_ly_terse [OF assms] using assms by simp

lemma alternate_iauCal2jd_invalid_month:
  "m < 1 \<or> m > 12 \<Longrightarrow> alternate_iauCal2jd y m d out = (- 2, Some out)"
  by (simp add: alternate_iauCal2jd_def)

lemma terse_alternate_iauCal2jd_invalid_month:
  "m < 1 \<or> m > 12 \<Longrightarrow> terse_alternate_iauCal2jd y m d out = (- 2, Some out)"
  by (simp add: terse_alternate_iauCal2jd_def)

lemma alternate_iauCal2jd_status:
  "fst (alternate_iauCal2jd y m d out) =
     (if m < 1 \<or> m > 12 then - 2 else if d < 1 \<or> d > ml y m then - 3 else 0)"
  by (cases "m < 1 \<or> m > 12")
    (simp_all add: alternate_iauCal2jd_invalid_month alternate_iauCal2jd_valid_month)

lemma terse_alternate_iauCal2jd_status:
  "fst (terse_alternate_iauCal2jd y m d out) =
     (if m < 1 \<or> m > 12 then - 2 else if d < 1 \<or> d > ml y m then - 3 else 0)"
  by (cases "m < 1 \<or> m > 12")
    (simp_all add: terse_alternate_iauCal2jd_invalid_month terse_alternate_iauCal2jd_valid_month)

subsection \<open>The forward engines on every input\<close>

lemma days_from_jan0_loop_Some:
  "1 \<le> cm \<Longrightarrow> m \<le> 13 \<Longrightarrow> \<exists>r. days_from_jan0_loop y m cm acc = Some r"
proof (induction y m cm acc rule: days_from_jan0_loop.induct)
  case (1 y m cm acc)
  show ?case
  proof (cases "cm < m")
    case False
    then show ?thesis
      by (subst days_from_jan0_loop.simps) simp
  next
    case True
    with "1.prems" have l: "month_len y cm = Some (ml y cm)"
      by (intro month_len_eq) simp_all
    have "\<exists>r. days_from_jan0_loop y m (cm + 1) (wrap32 (acc + ml y cm)) = Some r"
      using "1.prems" by (intro "1.IH" [OF True l]) simp_all
    then show ?thesis
      using True l by (subst days_from_jan0_loop.simps) simp
  qed
qed

lemma days_from_dec32_loop_Some:
  "0 \<le> m \<Longrightarrow> cm \<le> 12 \<Longrightarrow> \<exists>r. days_from_dec32_loop y m cm acc = Some r"
proof (induction y m cm acc rule: days_from_dec32_loop.induct)
  case (1 y m cm acc)
  show ?case
  proof (cases "cm > m")
    case False
    then show ?thesis
      by (subst days_from_dec32_loop.simps) simp
  next
    case True
    with "1.prems" have l: "month_len y cm = Some (ml y cm)"
      by (intro month_len_eq) simp_all
    have "\<exists>r. days_from_dec32_loop y m (cm - 1) (wrap32 (acc + ml y cm)) = Some r"
      using "1.prems" by (intro "1.IH" [OF True l]) simp_all
    then show ?thesis
      using True l by (subst days_from_dec32_loop.simps) simp
  qed
qed

lemma alternate_cal2jd_Some:
  assumes "1 \<le> m" "m \<le> 12"
  shows "\<exists>jd. alternate_cal2jd y m d = Some (jd, 0)"
proof -
  obtain a where a: "days_from_jan0_loop y m 1 0 = Some a"
    using days_from_jan0_loop_Some [of 1 m y 0] assms by auto
  obtain b where b: "days_from_dec32_loop y m 12 0 = Some b"
    using days_from_dec32_loop_Some [of m 12 y 0] assms by auto
  have l: "month_len y m = Some (ml y m)"
    using assms by (rule month_len_eq)
  show ?thesis
    by (simp add: alternate_cal2jd_def cal2jd_non_neg_years_def cal2jd_neg_years_def Let_def
        days_from_jan0_def days_from_dec32_def days_remaining_in_month_def a b l)
qed

lemma gregorian_cal_to_julian_date_Some:
  assumes "1 \<le> m" "m \<le> 12"
  shows "\<exists>jd. gregorian_cal_to_julian_date y m d = Some (jd, 0)"
proof -
  have "0 \<le> m - 1" "m - 1 < int (length DAYS_IN_PRECEDING_MONTHS)"
    using assms by (simp_all add: DAYS_IN_PRECEDING_MONTHS_def)
  then have "array_at DAYS_IN_PRECEDING_MONTHS (m - 1)
      = Some (DAYS_IN_PRECEDING_MONTHS ! nat (m - 1))"
    by (simp add: array_at_def)
  then show ?thesis
    by (simp add: gregorian_cal_to_julian_date_def Let_def)
qed

subsection \<open>The range of years without overflow\<close>

lemma dby_lower: "- 5879610 \<le> y \<Longrightarrow> - 2147483455 \<le> dby y"
  using dby_mono [of "- 5879610" y] by (simp add: dby_def)

lemma dby_upper: "y \<le> 5879610 \<Longrightarrow> dby y \<le> 2147483456"
  using dby_mono [of y 5879610] by (simp add: dby_def)

lemma dby_0: "dby 0 = 0"
  by (simp add: dby_def)

lemma alternate_cal2jd_eq:
  assumes "- 5879610 \<le> y" "y \<le> 5879999" "1 \<le> m" "m \<le> 12"
    and "1 - min 0 (dby y) - dbm y m - 2147483647 \<le> d" "d \<le> 2147483647 - dbm y m"
  shows "alternate_cal2jd y m d = Some (JAN_0_YEAR_0 + of_int (dby y + dbm y m + d), 0)"
proof (cases "0 \<le> y")
  case True
  have "0 \<le> dby y"
    using dby_mono [of 0 y] True by (simp add: dby_0)
  then have "- 2147483648 \<le> dbm y m + d"
    using assms(5) by simp
  then have "cal2jd_non_neg_years y m d = Some (JAN_0_YEAR_0 + of_int (dby y + dbm y m + d), 0)"
    using True assms by (intro cal2jd_non_neg_years_eq) simp_all
  with True show ?thesis
    by (simp add: alternate_cal2jd_def)
next
  case False
  have "- 2147483455 \<le> dby (y + 1)"
    using assms(1) by (intro dby_lower) simp
  moreover have "0 \<le> dbm y m"
    using dbm_bounds [of m y] assms(3,4) by simp
  moreover have "dby y \<le> 0"
    using dby_mono [of y 0] False by (simp add: dby_0)
  ultimately have "cal2jd_neg_years y m d = Some (JAN_0_YEAR_0 + of_int (dby y + dbm y m + d), 0)"
    using False assms by (intro cal2jd_neg_years_eq) simp_all
  with False show ?thesis
    by (simp add: alternate_cal2jd_def)
qed

lemma alternate_cal2jd_valid_day:
  assumes "- 5879610 \<le> y" "y \<le> 5879999" "1 \<le> m" "m \<le> 12" "1 \<le> d" "d \<le> ml y m"
  shows "alternate_cal2jd y m d = Some (JAN_0_YEAR_0 + of_int (dby y + dbm y m + d), 0)"
proof -
  have "0 \<le> dbm y m" "dbm y m \<le> 366"
    using dbm_bounds [of m y] assms(3,4) by simp_all
  moreover have "- 2147483455 \<le> dby y"
    using assms(1) by (rule dby_lower)
  ultimately show ?thesis
    using assms ml_bounds [of y m] by (intro alternate_cal2jd_eq) (simp_all add: min_def)
qed

subsection \<open>The terse calendar date to Julian Date\<close>

lemma ceil_div:
  fixes y k :: int
  assumes "0 < k"
  shows "- ((- y) div k) = (y + (k - 1)) div k"
proof (cases "k dvd y")
  case True
  have "(y + k) div k = y div k + 1"
    using assms by simp
  with True have "(y + (k - 1)) div k = y div k"
    using step_div [OF assms, of y] by simp
  moreover have "(- y) div k = - (y div k)"
    using True assms by (simp add: zdiv_zminus1_eq_if dvd_eq_mod_eq_0)
  ultimately show ?thesis by simp
next
  case False
  have "(y + k) div k = y div k + 1"
    using assms by simp
  with False have "(y + (k - 1)) div k = y div k + 1"
    using step_div [OF assms, of y] by simp
  moreover have "(- y) div k = - (y div k) - 1"
    using False assms by (simp add: zdiv_zminus1_eq_if dvd_eq_mod_eq_0)
  ultimately show ?thesis by simp
qed

lemma dby_leaps:
  "0 \<le> y \<Longrightarrow> 0 \<le> dby y - 365 * y \<and> dby y - 365 * y \<le> y"
  "y \<le> 0 \<Longrightarrow> y \<le> dby y - 365 * y \<and> dby y - 365 * y \<le> 0"
  using dby_diff_bounds [of 0 y] dby_diff_bounds [of y 0] by (simp_all add: dby_0)

lemma div_bounds_nonneg:
  fixes a k :: int
  assumes "0 \<le> a" "1 \<le> k"
  shows "0 \<le> a div k" "a div k \<le> a"
  using assms zdiv_mono2 [of a 1 k] by (simp_all add: pos_imp_zdiv_nonneg_iff)

lemma num_366yrs_pos:
  fixes y :: int
  assumes "0 < y" "y \<le> 5879610"
  shows "wrap32 (wrap32 (wrap32 (c_div (wrap32 (y - 1)) 4 - c_div (wrap32 (y - 1)) 100)
      + c_div (wrap32 (y - 1)) CYCLE_YEARS) + 1) = dby y - 365 * y"
proof -
  have w: "wrap32 (y - 1) = y - 1"
    using assms by (simp add: wrap32_id)
  have d: "c_div (y - 1) 4 = (y - 1) div 4" "c_div (y - 1) 100 = (y - 1) div 100"
    "c_div (y - 1) CYCLE_YEARS = (y - 1) div 400"
    using assms by (simp_all add: c_div_nonneg CYCLE_YEARS_def)
  have e: "(y + 3) div 4 = (y - 1) div 4 + 1" "(y + 99) div 100 = (y - 1) div 100 + 1"
    "(y + 399) div 400 = (y - 1) div 400 + 1"
    using div_mult_self1 [of 4 "y - 1" 1] div_mult_self1 [of 100 "y - 1" 1]
      div_mult_self1 [of 400 "y - 1" 1] by (simp_all add: ac_simps)
  have b: "0 \<le> (y - 1) div 4" "(y - 1) div 4 \<le> y - 1" "0 \<le> (y - 1) div 100"
    "(y - 1) div 100 \<le> y - 1" "0 \<le> (y - 1) div 400" "(y - 1) div 400 \<le> y - 1"
    using assms(1) div_bounds_nonneg [of "y - 1" 4] div_bounds_nonneg [of "y - 1" 100]
      div_bounds_nonneg [of "y - 1" 400] by simp_all
  have w1: "wrap32 ((y - 1) div 4 - (y - 1) div 100) = (y - 1) div 4 - (y - 1) div 100"
    using b assms(2) by (intro wrap32_id) linarith+
  have w2: "wrap32 ((y - 1) div 4 - (y - 1) div 100 + (y - 1) div 400)
      = (y - 1) div 4 - (y - 1) div 100 + (y - 1) div 400"
    using b assms(2) by (intro wrap32_id) linarith+
  have w3: "wrap32 ((y - 1) div 4 - (y - 1) div 100 + (y - 1) div 400 + 1)
      = (y - 1) div 4 - (y - 1) div 100 + (y - 1) div 400 + 1"
    using b assms(2) by (intro wrap32_id) linarith+
  show ?thesis
    unfolding w d w1 w2 w3 by (simp add: dby_def e)
qed

lemma num_366yrs_zero:
  "wrap32 (wrap32 (c_div (wrap32 (0 - 1)) 4 - c_div (wrap32 (0 - 1)) 100)
      + c_div (wrap32 (0 - 1)) CYCLE_YEARS) = dby 0 - 365 * 0"
  by (simp add: wrap32_def c_div_def CYCLE_YEARS_def dby_def)

lemma num_366yrs_neg:
  fixes y :: int
  assumes "y < 0" "- 5879610 \<le> y"
  shows "wrap32 (wrap32 (c_div y 4 - c_div y 100) + c_div y CYCLE_YEARS) = dby y - 365 * y"
proof -
  have d: "c_div y 4 = (y + 3) div 4" "c_div y 100 = (y + 99) div 100"
    "c_div y CYCLE_YEARS = (y + 399) div 400"
    using assms(1) ceil_div [of 4 y] ceil_div [of 100 y] ceil_div [of 400 y]
    by (simp_all add: c_div_neg CYCLE_YEARS_def)
  have b: "0 \<le> (- y) div 4" "(- y) div 4 \<le> - y" "0 \<le> (- y) div 100"
    "(- y) div 100 \<le> - y" "0 \<le> (- y) div 400" "(- y) div 400 \<le> - y"
    using assms(1) div_bounds_nonneg [of "- y" 4] div_bounds_nonneg [of "- y" 100]
      div_bounds_nonneg [of "- y" 400] by simp_all
  have c: "(y + 3) div 4 = - ((- y) div 4)" "(y + 99) div 100 = - ((- y) div 100)"
    "(y + 399) div 400 = - ((- y) div 400)"
    using ceil_div [of 4 y] ceil_div [of 100 y] ceil_div [of 400 y] by simp_all
  have w1: "wrap32 ((y + 3) div 4 - (y + 99) div 100) = (y + 3) div 4 - (y + 99) div 100"
    using b assms(2) unfolding c by (intro wrap32_id) linarith+
  have w2: "wrap32 ((y + 3) div 4 - (y + 99) div 100 + (y + 399) div 400)
      = (y + 3) div 4 - (y + 99) div 100 + (y + 399) div 400"
    using b assms(2) unfolding c by (intro wrap32_id) linarith+
  show ?thesis
    unfolding d w1 w2 by (simp add: dby_def)
qed

lemma year_days_int:
  assumes "- 5879610 \<le> y" "y \<le> 5879610"
  shows "wrap32 (wrap32 (wrap32 (y - (dby y - 365 * y)) * SHORT_YR)
      + wrap32 ((dby y - 365 * y) * LONG_YR)) = dby y"
proof -
  define L where "L = dby y - 365 * y"
  have r: "- 2147483455 \<le> dby y" "dby y \<le> 2147483456"
    using assms by (simp_all add: dby_lower dby_upper)
  have s: "dby y = (y - L) * 365 + L * 366"
    by (simp add: L_def)
  have "- 2147483648 \<le> y - L \<and> y - L \<le> 2147483647
      \<and> - 2147483648 \<le> (y - L) * 365 \<and> (y - L) * 365 \<le> 2147483647
      \<and> - 2147483648 \<le> L * 366 \<and> L * 366 \<le> 2147483647"
  proof (cases "0 \<le> y")
    case True
    then have "0 \<le> L" "L \<le> y"
      using dby_leaps(1) [of y] unfolding L_def by simp_all
    with r s assms show ?thesis by auto
  next
    case False
    then have "y \<le> L" "L \<le> 0"
      using dby_leaps(2) [of y] unfolding L_def by simp_all
    with r s assms show ?thesis by auto
  qed
  then have w1: "wrap32 (y - L) = y - L"
    and w2: "wrap32 ((y - L) * 365) = (y - L) * 365"
    and w3: "wrap32 (L * 366) = L * 366"
    by (simp_all add: wrap32_id)
  have w4: "wrap32 ((y - L) * 365 + L * 366) = (y - L) * 365 + L * 366"
    using r s by (intro wrap32_id) linarith+
  show ?thesis
    unfolding L_def [symmetric] SHORT_YR_def LONG_YR_def w1 w2 w3 w4 using s by simp
qed

lemma preceding_eq:
  assumes "1 \<le> m" "m \<le> 12"
  shows "array_at DAYS_IN_PRECEDING_MONTHS (m - 1)
    = Some (dbm y m - (if is_leap y \<and> 2 \<le> m - 1 then 1 else 0))"
  using assms
  by (elim month_cases) (simp_all add: array_at_def DAYS_IN_PRECEDING_MONTHS_def dbm_def)

lemma gregorian_cal_to_julian_date_eq:
  assumes "- 5879610 \<le> y" "y \<le> 5879610" "1 \<le> m" "m \<le> 12"
  shows "gregorian_cal_to_julian_date y m d
    = Some (JAN_0_YEAR_0 + of_int (dby y + dbm y m) + d, 0)"
proof -
  have l: "(if c_mod y 100 = 0 then c_mod y 400 = 0 else c_mod y 4 = 0) = is_leap y"
    by (simp add: is_leap_def)
  note t = year_days_int [OF assms(1,2)]
  note p = preceding_eq [OF assms(3,4), of y]
  consider "0 < y" | "y = 0" | "y < 0" by linarith
  then show ?thesis
  proof cases
    case 1
    then have c: "(y \<ge> 0) = True" "(y > 0) = True" by simp_all
    show ?thesis
      unfolding gregorian_cal_to_julian_date_def Let_def c if_True
        num_366yrs_pos [OF 1 assms(2)] t l p Option.bind.simps
      by simp
  next
    case 2
    then have c: "(y \<ge> 0) = True" "(y > 0) = False" by simp_all
    show ?thesis
      unfolding gregorian_cal_to_julian_date_def Let_def c if_True if_False l p
        Option.bind.simps
      unfolding 2 num_366yrs_zero t [unfolded 2]
      by simp
  next
    case 3
    then have c: "(y \<ge> 0) = False" "(y > 0) = False" by simp_all
    show ?thesis
      unfolding gregorian_cal_to_julian_date_def Let_def c if_False
        num_366yrs_neg [OF 3 assms(1)] t l p Option.bind.simps
      by simp
  qed
qed

subsection \<open>The turn of the year\<close>

lemma dec_31: "dbm y 12 + 31 = year_len y"
  using dbm_Suc [of 12 y] by (simp add: dbm_13 ml_def)

lemma boundary_continuity_engine:
  assumes "- 5879611 \<le> y" "y \<le> 5879998"
  shows "alternate_cal2jd y 12 31 = Some (JAN_0_YEAR_0 + of_int (dby (y + 1)), 0)"
    and "alternate_cal2jd (y + 1) 1 1 = Some (JAN_0_YEAR_0 + of_int (dby (y + 1)) + 1, 0)"
proof -
  have l: "- 2147483455 \<le> dby (y + 1)"
    using assms(1) by (intro dby_lower) simp
  have "alternate_cal2jd (y + 1) 1 1
      = Some (JAN_0_YEAR_0 + of_int (dby (y + 1) + dbm (y + 1) 1 + 1), 0)"
    using assms l by (intro alternate_cal2jd_eq) (simp_all add: dbm_1 min_def)
  then show "alternate_cal2jd (y + 1) 1 1 = Some (JAN_0_YEAR_0 + of_int (dby (y + 1)) + 1, 0)"
    by (simp add: dbm_1)
  have s: "dby y + dbm y 12 + 31 = dby (y + 1)"
    using dec_31 [of y] by (simp add: dby_Suc)
  have "alternate_cal2jd y 12 31 = Some (JAN_0_YEAR_0 + of_int (dby y + dbm y 12 + 31), 0)"
  proof (cases "0 \<le> y")
    case True
    have "0 \<le> dbm y 12" "dbm y 12 \<le> 366"
      using dbm_bounds [of 12 y] by simp_all
    moreover have "0 \<le> dby y"
      using dby_mono [of 0 y] True by (simp add: dby_0)
    ultimately show ?thesis
      using True assms by (intro alternate_cal2jd_eq) (simp_all add: min_def)
  next
    case False
    then have "cal2jd_neg_years y 12 31 = Some (JAN_0_YEAR_0 + of_int (dby y + dbm y 12 + 31), 0)"
      using l s by (intro cal2jd_neg_years_eq) simp_all
    with False show ?thesis
      by (simp add: alternate_cal2jd_def)
  qed
  then show "alternate_cal2jd y 12 31 = Some (JAN_0_YEAR_0 + of_int (dby (y + 1)), 0)"
    unfolding s .
qed

subsection \<open>Julian Date to calendar date\<close>

lemma int_of_double_of_int:
  "- 2147483648 \<le> k \<Longrightarrow> k \<le> 2147483647 \<Longrightarrow> int_of_double (of_int k) = Some k"
  by (simp add: int_of_double_def INT_MIN_def INT_MAX_def)

lemma FULL_CYCLE_DAYS_eq: "FULL_CYCLE_DAYS = 146097"
  by (simp add: FULL_CYCLE_DAYS_def NORMAL_YEAR_LEN_def LEAP_YEAR_LEN_def)

lemma cycle_floor:
  fixes t :: real
  shows "of_int (146097 * \<lfloor>t / 146097\<rfloor>) \<le> t" "t < of_int (146097 * \<lfloor>t / 146097\<rfloor>) + 146097"
proof -
  have "of_int \<lfloor>t / 146097\<rfloor> \<le> t / 146097" "t / 146097 < of_int \<lfloor>t / 146097\<rfloor> + 1"
    by linarith+
  then show "of_int (146097 * \<lfloor>t / 146097\<rfloor>) \<le> t"
    "t < of_int (146097 * \<lfloor>t / 146097\<rfloor>) + 146097"
    by (simp_all add: field_simps)
qed

lemma jd2cal_non_neg_years_loop_post:
  assumes "0 \<le> idx" "idx \<le> 400" "year = yfc + idx" "temp = of_int (dby year)"
    and "temp \<le> target" "target < of_int (dby (yfc + 400))"
    and "- 2147483648 \<le> yfc" "yfc + 400 \<le> 2147483647"
  shows "\<exists>y'. jd2cal_non_neg_years_loop target yfc idx temp year = (of_int (dby y'), y')
    \<and> of_int (dby y') \<le> target \<and> target < of_int (dby (y' + 1))"
  using assms
proof (induction target yfc idx temp year rule: jd2cal_non_neg_years_loop.induct)
  case (1 target yfc idx temp year)
  show ?case
  proof (cases "idx < 400")
    case False
    with "1.prems" have "year = yfc + 400" by simp
    with "1.prems" show ?thesis by simp
  next
    case True
    then have i: "idx < FULL_CYCLE_YEARS" by (simp add: FULL_CYCLE_YEARS_def)
    have w: "wrap32 (yfc + idx) = year" "wrap32 (year + 1) = year + 1"
      using "1.prems" True by (simp_all add: wrap32_id)
    define x :: real where "x = of_int (year_len (wrap32 (yfc + idx)))"
    have x: "temp + x = of_int (dby (year + 1))"
      using "1.prems"(4) by (simp add: x_def w dby_Suc)
    show ?thesis
    proof (cases "temp + x \<le> target")
      case False
      with x "1.prems" have "target < of_int (dby (year + 1))" by simp
      with False "1.prems" i show ?thesis
        by (subst jd2cal_non_neg_years_loop.simps) (simp add: Let_def x_def [symmetric])
    next
      case c: True
      have "\<exists>y'. jd2cal_non_neg_years_loop target yfc (idx + 1) (temp + x) (wrap32 (year + 1))
            = (of_int (dby y'), y')
          \<and> of_int (dby y') \<le> target \<and> target < of_int (dby (y' + 1))"
        using "1.prems" True c x w
        by (intro "1.IH" [OF i x_def c]) simp_all
      with c i show ?thesis
        by (subst jd2cal_non_neg_years_loop.simps) (simp add: Let_def x_def [symmetric])
    qed
  qed
qed

lemma jd2cal_non_neg_years_months_post:
  assumes "1 \<le> idx" "idx \<le> 13" "month = idx" "temp = of_int (dby year + dbm year idx)"
    and "temp \<le> target" "target < of_int (dby (year + 1))"
  shows "\<exists>m'. jd2cal_non_neg_years_months target year idx temp month
      = Some (of_int (dby year + dbm year m'), m')
    \<and> 1 \<le> m' \<and> m' \<le> 12
    \<and> of_int (dby year + dbm year m') \<le> target
    \<and> target < of_int (dby year + dbm year (m' + 1))"
  using assms
proof (induction target year idx temp month rule: jd2cal_non_neg_years_months.induct)
  case (1 target year idx temp month)
  show ?case
  proof (cases "idx \<le> 12")
    case False
    with "1.prems" have "idx = 13" by simp
    with "1.prems" show ?thesis by (simp add: dbm_13 dby_Suc)
  next
    case True
    have l: "month_len year idx = Some (ml year idx)"
      using "1.prems" True by (simp add: month_len_eq)
    define x :: real where "x = of_int (ml year idx)"
    have x: "temp + x = of_int (dby year + dbm year (idx + 1))"
      using "1.prems" True by (simp add: x_def dbm_Suc)
    show ?thesis
    proof (cases "temp + x \<le> target")
      case False
      with x "1.prems" have "target < of_int (dby year + dbm year (idx + 1))" by simp
      with False "1.prems" True l show ?thesis
        by (subst jd2cal_non_neg_years_months.simps) (simp add: Let_def x_def [symmetric])
    next
      case c: True
      have "\<exists>m'. jd2cal_non_neg_years_months target year (idx + 1) (temp + x) (month + 1)
            = Some (of_int (dby year + dbm year m'), m')
          \<and> 1 \<le> m' \<and> m' \<le> 12
          \<and> of_int (dby year + dbm year m') \<le> target
          \<and> target < of_int (dby year + dbm year (m' + 1))"
        using "1.prems" True c x
        by (intro "1.IH" [OF True l x_def c]) simp_all
      with c True l show ?thesis
        by (subst jd2cal_non_neg_years_months.simps) (simp add: Let_def x_def [symmetric])
    qed
  qed
qed

lemma dby_add_cycles: "dby (400 * n + 400) = 146097 * n + 146097"
  using dby_400 [of "400 * n"] by (simp add: dby_cycle)

lemma day_of_month:
  fixes r :: real
  assumes "of_int (dbm y m) \<le> r" "r < of_int (dbm y (m + 1))" "1 \<le> m" "m \<le> 12"
  defines "days \<equiv> r - of_int (dbm y m) + 1"
  shows "1 \<le> \<lfloor>days\<rfloor>" "\<lfloor>days\<rfloor> \<le> ml y m" "dint days = of_int \<lfloor>days\<rfloor>"
    "int_of_double (of_int \<lfloor>days\<rfloor>) = Some \<lfloor>days\<rfloor>"
proof -
  have s: "dbm y (m + 1) = dbm y m + ml y m"
    using assms(3,4) by (rule dbm_Suc)
  have d: "1 \<le> days" "days < of_int (ml y m) + 1"
    using assms(1,2) unfolding days_def s by simp_all
  show 1: "1 \<le> \<lfloor>days\<rfloor>"
    using d(1) by linarith
  show 2: "\<lfloor>days\<rfloor> \<le> ml y m"
    using d(2) by linarith
  show "dint days = of_int \<lfloor>days\<rfloor>"
    using d(1) by (simp add: dint_def)
  show "int_of_double (of_int \<lfloor>days\<rfloor>) = Some \<lfloor>days\<rfloor>"
    using 1 2 ml_bounds [of y m] by (intro int_of_double_of_int) linarith+
qed

lemma on_day_floor:
  fixes t :: real
  assumes "of_int (dby y + dbm y m) \<le> t" "t < of_int (dby y + dbm y (m + 1))"
    "1 \<le> m" "m \<le> 12"
  defines "days \<equiv> t - of_int (dby y + dbm y m) + 1"
  shows "on_day t y m \<lfloor>days\<rfloor>" "days - of_int \<lfloor>days\<rfloor> = t - of_int (day_start y m \<lfloor>days\<rfloor>)"
proof -
  have e: "days = (t - of_int (dby y)) - of_int (dbm y m) + 1"
    by (simp add: days_def)
  have "1 \<le> \<lfloor>days\<rfloor>" "\<lfloor>days\<rfloor> \<le> ml y m"
    unfolding e using assms(1,2)
    by (intro day_of_month(1,2) [of y m "t - of_int (dby y)"]; use assms(3,4) in simp)+
  moreover have "of_int \<lfloor>days\<rfloor> \<le> days" "days < of_int \<lfloor>days\<rfloor> + 1"
    by linarith+
  moreover have g: "t = days + of_int (dby y + dbm y m) - 1"
    by (simp add: days_def)
  ultimately show "on_day t y m \<lfloor>days\<rfloor>"
    using assms(3,4) by (simp add: on_day_def day_start_def)
  show "days - of_int \<lfloor>days\<rfloor> = t - of_int (day_start y m \<lfloor>days\<rfloor>)"
    unfolding g by (simp add: day_start_def)
qed

lemma jd2cal_non_neg_years_post:
  fixes jd :: real
  defines "t \<equiv> jd - 1721059.5"
  assumes "0 \<le> t" "t < 2147625900"
  shows "\<exists>y m d. jd2cal_non_neg_years jd = Some (y, m, d, t - of_int (day_start y m d))
    \<and> on_day t y m d"
proof -
  define n where "n = \<lfloor>t / 146097\<rfloor>"
  have n: "of_int (146097 * n) \<le> t" "t < of_int (146097 * n) + 146097"
    unfolding n_def by (rule cycle_floor)+
  have n0: "0 \<le> n"
    using assms(2) by (simp add: n_def)
  have "t / 146097 < 14700"
    using assms(3) by simp
  then have n1: "n \<le> 14699"
    unfolding n_def by linarith
  have tg: "jd - (JAN_0_YEAR_0 + 1) = t"
    by (simp add: t_def JAN_0_YEAR_0_def)
  have c: "int_of_double (c_floor (t / of_int FULL_CYCLE_DAYS)) = Some n"
    using n0 n1 by (simp add: c_floor_def FULL_CYCLE_DAYS_eq n_def [symmetric] int_of_double_of_int)
  have w: "wrap32 (n * FULL_CYCLE_YEARS) = 400 * n" "wrap32 (n * FULL_CYCLE_DAYS) = 146097 * n"
    using n0 n1 by (simp_all add: FULL_CYCLE_YEARS_def FULL_CYCLE_DAYS_eq wrap32_id)
  obtain y where y: "jd2cal_non_neg_years_loop t (400 * n) 0 (of_int (146097 * n)) (400 * n)
      = (of_int (dby y), y)" "of_int (dby y) \<le> t" "t < of_int (dby (y + 1))"
    using jd2cal_non_neg_years_loop_post [of 0 "400 * n" "400 * n" "of_int (146097 * n)" t]
      n n0 n1 by (auto simp add: dby_cycle dby_add_cycles)
  obtain m where m: "jd2cal_non_neg_years_months t y 1 (of_int (dby y)) 1
      = Some (of_int (dby y + dbm y m), m)" "1 \<le> m" "m \<le> 12"
    "of_int (dby y + dbm y m) \<le> t" "t < of_int (dby y + dbm y (m + 1))"
    using jd2cal_non_neg_years_months_post [of 1 1 "of_int (dby y)" y t] y(2,3)
    by (auto simp add: dbm_1)
  define days where "days = t - of_int (dby y + dbm y m) + 1"
  have e: "days = (t - of_int (dby y)) - of_int (dbm y m) + 1"
    by (simp add: days_def)
  have d: "dint days = of_int \<lfloor>days\<rfloor>" "int_of_double (of_int \<lfloor>days\<rfloor>) = Some \<lfloor>days\<rfloor>"
    unfolding e using m(4,5)
    by (intro day_of_month(3,4) [of y m "t - of_int (dby y)"]; use m(2,3) in simp)+
  have o: "on_day t y m \<lfloor>days\<rfloor>" "days - of_int \<lfloor>days\<rfloor> = t - of_int (day_start y m \<lfloor>days\<rfloor>)"
    unfolding days_def using m by (intro on_day_floor; simp)+
  have "jd2cal_non_neg_years jd = Some (y, m, \<lfloor>days\<rfloor>, days - of_int \<lfloor>days\<rfloor>)"
    unfolding jd2cal_non_neg_years_def Let_def tg c Option.bind.simps w y(1) prod.case m(1)
      days_def [symmetric] d
    by simp
  with o show ?thesis by auto
qed

lemma jd2cal_neg_years_loop_post:
  assumes "0 \<le> idx" "idx \<le> 400" "year = yfc - idx" "temp = of_int (dby (year + 1))"
    and "target < temp" "of_int (dby (yfc - 399)) \<le> target"
    and "- 2147483648 \<le> yfc - 400" "yfc \<le> 2147483647"
  shows "\<exists>y'. jd2cal_neg_years_loop target yfc idx temp year = (of_int (dby (y' + 1)), y')
    \<and> of_int (dby y') \<le> target \<and> target < of_int (dby (y' + 1))"
  using assms
proof (induction target yfc idx temp year rule: jd2cal_neg_years_loop.induct)
  case (1 target yfc idx temp year)
  show ?case
  proof (cases "idx < 400")
    case False
    with "1.prems" have "year + 1 = yfc - 399" by simp
    with "1.prems" show ?thesis by simp
  next
    case True
    then have i: "idx < FULL_CYCLE_YEARS" by (simp add: FULL_CYCLE_YEARS_def)
    have w: "wrap32 (yfc - idx) = year" "wrap32 (year - 1) = year - 1"
      using "1.prems" True by (simp_all add: wrap32_id)
    define x :: real where "x = of_int (year_len (wrap32 (yfc - idx)))"
    have x: "temp - x = of_int (dby year)"
      using "1.prems"(4) by (simp add: x_def w dby_Suc)
    show ?thesis
    proof (cases "target < temp - x")
      case False
      with x "1.prems" have "of_int (dby year) \<le> target" by simp
      with False "1.prems" i show ?thesis
        by (subst jd2cal_neg_years_loop.simps) (simp add: Let_def x_def [symmetric])
    next
      case c: True
      have "\<exists>y'. jd2cal_neg_years_loop target yfc (idx + 1) (temp - x) (wrap32 (year - 1))
            = (of_int (dby (y' + 1)), y')
          \<and> of_int (dby y') \<le> target \<and> target < of_int (dby (y' + 1))"
        using "1.prems" True c x w
        by (intro "1.IH" [OF i x_def c]) simp_all
      with c i show ?thesis
        by (subst jd2cal_neg_years_loop.simps) (simp add: Let_def x_def [symmetric])
    qed
  qed
qed

lemma jd2cal_neg_years_months_post:
  assumes "0 \<le> idx" "idx \<le> 12" "month = idx" "temp = of_int (dby year + dbm year (idx + 1))"
    and "target < temp" "of_int (dby year) \<le> target"
  shows "\<exists>m'. jd2cal_neg_years_months target year idx temp month
      = Some (of_int (dby year + dbm year (m' + 1)), m')
    \<and> 1 \<le> m' \<and> m' \<le> 12
    \<and> of_int (dby year + dbm year m') \<le> target
    \<and> target < of_int (dby year + dbm year (m' + 1))"
  using assms
proof (induction target year idx temp month rule: jd2cal_neg_years_months.induct)
  case (1 target year idx temp month)
  show ?case
  proof (cases "1 \<le> idx")
    case False
    with "1.prems" have "idx = 0" by simp
    with "1.prems" show ?thesis by (simp add: dbm_1)
  next
    case True
    have l: "month_len year idx = Some (ml year idx)"
      using "1.prems" True by (simp add: month_len_eq)
    define x :: real where "x = of_int (ml year idx)"
    have x: "temp - x = of_int (dby year + dbm year idx)"
      using "1.prems" True by (simp add: x_def dbm_Suc)
    show ?thesis
    proof (cases "target < temp - x")
      case False
      with x "1.prems" have "of_int (dby year + dbm year idx) \<le> target" by simp
      with False "1.prems" True l show ?thesis
        by (subst jd2cal_neg_years_months.simps) (simp add: Let_def x_def [symmetric])
    next
      case c: True
      have "\<exists>m'. jd2cal_neg_years_months target year (idx - 1) (temp - x) (month - 1)
            = Some (of_int (dby year + dbm year (m' + 1)), m')
          \<and> 1 \<le> m' \<and> m' \<le> 12
          \<and> of_int (dby year + dbm year m') \<le> target
          \<and> target < of_int (dby year + dbm year (m' + 1))"
        using "1.prems" True c x
        by (intro "1.IH" [OF True l x_def c]) simp_all
      with c True l show ?thesis
        by (subst jd2cal_neg_years_months.simps) (simp add: Let_def x_def [symmetric])
    qed
  qed
qed

lemma jd2cal_neg_years_post:
  fixes jd :: real
  defines "t \<equiv> jd - 1721059.5"
  assumes "- 2147625900 \<le> t" "t < 0"
  shows "\<exists>y m d. jd2cal_neg_years jd = Some (y, m, d, t - of_int (day_start y m d))
    \<and> on_day t y m d"
proof -
  define n where "n = \<lfloor>t / 146097\<rfloor> + 1"
  have n: "of_int (146097 * (n - 1)) \<le> t" "t < of_int (146097 * (n - 1)) + 146097"
    unfolding n_def using cycle_floor [of t] by simp_all
  have "t / 146097 < 0"
    using assms(3) by simp
  then have n0: "n \<le> 0"
    unfolding n_def by linarith
  have "- 14700 \<le> t / 146097"
    using assms(2) by simp
  then have n1: "- 14699 \<le> n"
    unfolding n_def by linarith
  have tg: "jd - (JAN_0_YEAR_0 + 1) = t"
    by (simp add: t_def JAN_0_YEAR_0_def)
  have "c_floor (t / of_int FULL_CYCLE_DAYS) + 1 = of_int n"
    by (simp add: c_floor_def FULL_CYCLE_DAYS_eq n_def)
  then have c: "int_of_double (c_floor (t / of_int FULL_CYCLE_DAYS) + 1) = Some n"
    using n0 n1 by (simp add: int_of_double_of_int)
  have w: "wrap32 (n * FULL_CYCLE_YEARS) = 400 * n" "wrap32 (n * FULL_CYCLE_DAYS) = 146097 * n"
    "wrap32 (400 * n - 1) = 400 * n - 1"
    using n0 n1 by (simp_all add: FULL_CYCLE_YEARS_def FULL_CYCLE_DAYS_eq wrap32_id)
  have b: "dby (400 * n - 1 - 399) = 146097 * (n - 1)"
    using dby_cycle [of "n - 1"] by (simp add: algebra_simps)
  obtain y where y: "jd2cal_neg_years_loop t (400 * n - 1) 0 (of_int (146097 * n)) (400 * n - 1)
      = (of_int (dby (y + 1)), y)" "of_int (dby y) \<le> t" "t < of_int (dby (y + 1))"
    using jd2cal_neg_years_loop_post [of 0 "400 * n - 1" "400 * n - 1" "of_int (146097 * n)" t]
      n n0 n1 b by (auto simp add: dby_cycle)
  obtain m where m: "jd2cal_neg_years_months t y 12 (of_int (dby (y + 1))) 12
      = Some (of_int (dby y + dbm y (m + 1)), m)" "1 \<le> m" "m \<le> 12"
    "of_int (dby y + dbm y m) \<le> t" "t < of_int (dby y + dbm y (m + 1))"
    using jd2cal_neg_years_months_post [of 12 12 "of_int (dby (y + 1))" y t] y(2,3)
    by (auto simp add: dbm_13 dby_Suc)
  have l: "month_len y m = Some (ml y m)"
    using m(2,3) by (rule month_len_eq)
  define days where "days = t - of_int (dby y + dbm y m) + 1"
  have e: "days = (t - of_int (dby y)) - of_int (dbm y m) + 1"
    by (simp add: days_def)
  have d: "dint days = of_int \<lfloor>days\<rfloor>" "int_of_double (of_int \<lfloor>days\<rfloor>) = Some \<lfloor>days\<rfloor>"
    unfolding e using m(4,5)
    by (intro day_of_month(3,4) [of y m "t - of_int (dby y)"]; use m(2,3) in simp)+
  have o: "on_day t y m \<lfloor>days\<rfloor>" "days - of_int \<lfloor>days\<rfloor> = t - of_int (day_start y m \<lfloor>days\<rfloor>)"
    unfolding days_def using m by (intro on_day_floor; simp)+
  have s: "of_int (ml y m + 1) + t - of_int (dby y + dbm y (m + 1)) = days"
    using m(2,3) by (simp add: days_def dbm_Suc)
  have "jd2cal_neg_years jd = Some (y, m, \<lfloor>days\<rfloor>, days - of_int \<lfloor>days\<rfloor>)"
    unfolding jd2cal_neg_years_def Let_def tg c Option.bind.simps w y(1) prod.case m(1) l s d
    by simp
  with o show ?thesis by auto
qed

lemma alternate_jd2Cal_post:
  fixes dj1 dj2 :: real
  defines "t \<equiv> dj1 + dj2 - 1721059.5"
  assumes "- 2147625900 \<le> t" "t < 2147625900"
  shows "\<exists>y m d. alternate_jd2Cal dj1 dj2 = Some (y, m, d, t - of_int (day_start y m d))
    \<and> on_day t y m d"
proof (cases "0 \<le> t")
  case True
  then have "dj1 + dj2 \<ge> JAN_0_YEAR_0 + 1"
    by (simp add: t_def JAN_0_YEAR_0_def)
  then have "alternate_jd2Cal dj1 dj2 = jd2cal_non_neg_years (dj1 + dj2)"
    by (simp add: alternate_jd2Cal_def Let_def)
  with jd2cal_non_neg_years_post [of "dj1 + dj2"] True assms(3) show ?thesis
    by (simp add: t_def)
next
  case False
  then have "\<not> dj1 + dj2 \<ge> JAN_0_YEAR_0 + 1"
    by (simp add: t_def JAN_0_YEAR_0_def)
  then have "alternate_jd2Cal dj1 dj2 = jd2cal_neg_years (dj1 + dj2)"
    by (simp add: alternate_jd2Cal_def Let_def)
  with jd2cal_neg_years_post [of "dj1 + dj2"] False assms(2) show ?thesis
    by (simp add: t_def)
qed

subsection \<open>One day for every instant\<close>

lemma day_start_in_month:
  assumes "1 \<le> m" "m \<le> 12" "1 \<le> d" "d \<le> ml y m"
  shows "dby y + dbm y m \<le> day_start y m d" "day_start y m d < dby y + dbm y (m + 1)"
  using assms by (simp_all add: day_start_def dbm_Suc)

lemma day_start_in_year:
  assumes "1 \<le> m" "m \<le> 12" "1 \<le> d" "d \<le> ml y m"
  shows "dby y \<le> day_start y m d" "day_start y m d < dby (y + 1)"
proof -
  have "0 \<le> dbm y m" "dbm y (m + 1) \<le> dbm y 13"
    using assms(1,2) dbm_bounds [of m y] dbm_mono [of "m + 1" 13 y] by simp_all
  then show "dby y \<le> day_start y m d" "day_start y m d < dby (y + 1)"
    using day_start_in_month [OF assms] by (simp_all add: dbm_13 dby_Suc)
qed

lemma day_start_year_unique:
  assumes "1 \<le> m" "m \<le> 12" "1 \<le> d" "d \<le> ml y m"
    and "1 \<le> m'" "m' \<le> 12" "1 \<le> d'" "d' \<le> ml y' m'"
    and "day_start y m d = day_start y' m' d'"
  shows "y = y'"
proof (rule ccontr)
  assume "y \<noteq> y'"
  then consider "y + 1 \<le> y'" | "y' + 1 \<le> y" by linarith
  then show False
  proof cases
    case 1
    then have "dby (y + 1) \<le> dby y'" by (rule dby_mono)
    with day_start_in_year [OF assms(1-4)] day_start_in_year [OF assms(5-8)] assms(9)
    show False by simp
  next
    case 2
    then have "dby (y' + 1) \<le> dby y" by (rule dby_mono)
    with day_start_in_year [OF assms(1-4)] day_start_in_year [OF assms(5-8)] assms(9)
    show False by simp
  qed
qed

lemma day_start_month_unique:
  assumes "1 \<le> m" "m \<le> 12" "1 \<le> d" "d \<le> ml y m"
    and "1 \<le> m'" "m' \<le> 12" "1 \<le> d'" "d' \<le> ml y m'"
    and "day_start y m d = day_start y m' d'"
  shows "m = m'"
proof (rule ccontr)
  assume "m \<noteq> m'"
  then consider "m + 1 \<le> m'" | "m' + 1 \<le> m" by linarith
  then show False
  proof cases
    case 1
    then have "dbm y (m + 1) \<le> dbm y m'"
      using assms(1,6) by (intro dbm_mono) simp_all
    with day_start_in_month [OF assms(1-4)] day_start_in_month [OF assms(5-8)] assms(9)
    show False by simp
  next
    case 2
    then have "dbm y (m' + 1) \<le> dbm y m"
      using assms(2,5) by (intro dbm_mono) simp_all
    with day_start_in_month [OF assms(1-4)] day_start_in_month [OF assms(5-8)] assms(9)
    show False by simp
  qed
qed

lemma on_day_unique:
  assumes "on_day t y m d" "on_day t y' m' d'"
  shows "y = y' \<and> m = m' \<and> d = d'"
proof -
  have a: "1 \<le> m" "m \<le> 12" "1 \<le> d" "d \<le> ml y m"
    and b: "1 \<le> m'" "m' \<le> 12" "1 \<le> d'" "d' \<le> ml y' m'"
    using assms by (simp_all add: on_day_def)
  have "\<lfloor>t\<rfloor> = day_start y m d" "\<lfloor>t\<rfloor> = day_start y' m' d'"
    using assms unfolding on_day_def by linarith+
  then have e: "day_start y m d = day_start y' m' d'" by simp
  have y: "y = y'"
    using a b e by (rule day_start_year_unique)
  have m: "m = m'"
    using a b e unfolding y [symmetric] by (rule day_start_month_unique)
  have "d = d'"
    using e unfolding y [symmetric] m [symmetric] by (simp add: day_start_def)
  with y m show ?thesis by simp
qed

lemma on_day_start:
  assumes "1 \<le> m" "m \<le> 12" "1 \<le> d" "d \<le> ml y m"
  shows "on_day (of_int (day_start y m d)) y m d"
  using assms by (simp add: on_day_def)

lemma day_start_range:
  assumes "- 5879610 \<le> y" "y \<le> 5879610" "1 \<le> m" "m \<le> 12" "1 \<le> d" "d \<le> ml y m"
  shows "- 2147483455 \<le> day_start y m d" "day_start y m d < 2147483822"
proof -
  have "dby (y + 1) \<le> dby 5879611"
    using assms(2) by (intro dby_mono) simp
  then have "dby (y + 1) \<le> 2147483821"
    by (simp add: dby_def)
  then show "- 2147483455 \<le> day_start y m d" "day_start y m d < 2147483822"
    using day_start_in_year [OF assms(3-6)] dby_lower [OF assms(1)] by simp_all
qed

lemma alternate_round_trip:
  assumes "- 5879610 \<le> y" "y \<le> 5879610" "1 \<le> m" "m \<le> 12" "1 \<le> d" "d \<le> ml y m"
  shows "alternate_cal2jd y m d = Some (1721059.5 + of_int (day_start y m d), 0)"
    and "alternate_jd2Cal (1721059.5 + of_int (day_start y m d)) 0 = Some (y, m, d, 0)"
proof -
  show "alternate_cal2jd y m d = Some (1721059.5 + of_int (day_start y m d), 0)"
    using assms by (simp add: alternate_cal2jd_valid_day day_start_def JAN_0_YEAR_0_def)
  define t :: real where "t = of_int (day_start y m d)"
  have r: "- 2147625900 \<le> t" "t < 2147625900"
    using day_start_range [OF assms] by (simp_all add: t_def)
  have e: "1721059.5 + t + 0 - 1721059.5 = t"
    by simp
  obtain y' m' d' where p: "alternate_jd2Cal (1721059.5 + t) 0
      = Some (y', m', d', t - of_int (day_start y' m' d'))" "on_day t y' m' d'"
    using alternate_jd2Cal_post [of "1721059.5 + t" 0] r unfolding e by auto
  have "on_day t y m d"
    unfolding t_def using assms(3-6) by (rule on_day_start)
  with p(2) have "y' = y \<and> m' = m \<and> d' = d"
    by (rule on_day_unique)
  with p(1) show "alternate_jd2Cal (1721059.5 + of_int (day_start y m d)) 0 = Some (y, m, d, 0)"
    by (simp add: t_def)
qed

subsection \<open>The terse Julian Date to calendar date\<close>

lemma CYCLE_DAYS_eq: "CYCLE_DAYS = 146097"
  by (simp add: CYCLE_DAYS_def SHORT_YR_def CYCLE_YEARS_def c_div_def)

lemma dby_shift: "dby (400 * n + k) = 146097 * n + dby k"
proof -
  have "(400 * n + k + 3) div 4 = 100 * n + (k + 3) div 4"
    using div_mult_self1 [of 4 "k + 3" "100 * n"] by (simp add: ac_simps)
  moreover have "(400 * n + k + 99) div 100 = 4 * n + (k + 99) div 100"
    using div_mult_self1 [of 100 "k + 99" "4 * n"] by (simp add: ac_simps)
  moreover have "(400 * n + k + 399) div 400 = n + (k + 399) div 400"
    using div_mult_self1 [of 400 "k + 399" n] by (simp add: ac_simps)
  ultimately show ?thesis
    unfolding dby_def by simp
qed

lemma more_days_eq:
  fixes k :: int
  assumes "0 < k" "k \<le> 400"
  shows "wrap32 (wrap32 (wrap32 (wrap32 (wrap32 (k * SHORT_YR) + c_div (k - 1) 4)
      - c_div (k - 1) 100) + c_div (k - 1) 400) + 1) = dby k"
proof -
  have d: "c_div (k - 1) 4 = (k - 1) div 4" "c_div (k - 1) 100 = (k - 1) div 100"
    "c_div (k - 1) 400 = (k - 1) div 400"
    using assms by (simp_all add: c_div_nonneg)
  have e: "(k + 3) div 4 = (k - 1) div 4 + 1" "(k + 99) div 100 = (k - 1) div 100 + 1"
    "(k + 399) div 400 = (k - 1) div 400 + 1"
    using div_mult_self1 [of 4 "k - 1" 1] div_mult_self1 [of 100 "k - 1" 1]
      div_mult_self1 [of 400 "k - 1" 1] by (simp_all add: ac_simps)
  have b: "0 \<le> (k - 1) div 4" "(k - 1) div 4 \<le> k - 1" "0 \<le> (k - 1) div 100"
    "(k - 1) div 100 \<le> k - 1" "0 \<le> (k - 1) div 400" "(k - 1) div 400 \<le> k - 1"
    using assms(1) div_bounds_nonneg [of "k - 1" 4] div_bounds_nonneg [of "k - 1" 100]
      div_bounds_nonneg [of "k - 1" 400] by simp_all
  have w0: "wrap32 (k * 365) = k * 365"
    using assms by (intro wrap32_id) linarith+
  have w1: "wrap32 (k * 365 + (k - 1) div 4) = k * 365 + (k - 1) div 4"
    using b assms by (intro wrap32_id) linarith+
  have w2: "wrap32 (k * 365 + (k - 1) div 4 - (k - 1) div 100)
      = k * 365 + (k - 1) div 4 - (k - 1) div 100"
    using b assms by (intro wrap32_id) linarith+
  have w3: "wrap32 (k * 365 + (k - 1) div 4 - (k - 1) div 100 + (k - 1) div 400)
      = k * 365 + (k - 1) div 4 - (k - 1) div 100 + (k - 1) div 400"
    using b assms by (intro wrap32_id) linarith+
  have w4: "wrap32 (k * 365 + (k - 1) div 4 - (k - 1) div 100 + (k - 1) div 400 + 1)
      = k * 365 + (k - 1) div 4 - (k - 1) div 100 + (k - 1) div 400 + 1"
    using b assms by (intro wrap32_id) linarith+
  show ?thesis
    unfolding SHORT_YR_def d w0 w1 w2 w3 w4 by (simp add: dby_def e)
qed

lemma terse_year_length: "(if is_leap y then LONG_YR else SHORT_YR) = year_len y"
  by (simp add: year_len_def LONG_YR_def SHORT_YR_def LEAP_YEAR_LEN_def NORMAL_YEAR_LEN_def)

lemma terse_month_length:
  assumes "1 \<le> m" "m \<le> 12"
  shows "\<exists>l. array_at MONTH_LEN (m - 1) = Some l
    \<and> (if is_leap y \<and> m = 2 then l + 1 else l) = ml y m"
  using assms
  by (elim month_cases) (simp_all add: array_at_def MONTH_LEN_def ml_def)

lemma julian_date_to_gregorian_cal_years_post:
  assumes "0 \<le> more" "more \<le> 400" "year = ysf + more" "cursor = of_int (dby year - B)"
    and "cursor \<le> jmb" "jmb < of_int (dby (ysf + 400) - B)"
    and "- 2147483648 \<le> ysf" "ysf + 400 \<le> 2147483647"
  shows "\<exists>y'. julian_date_to_gregorian_cal_years jmb ysf more cursor year
      = (of_int (dby y' - B), y')
    \<and> of_int (dby y' - B) \<le> jmb \<and> jmb < of_int (dby (y' + 1) - B)"
  using assms
proof (induction jmb ysf more cursor year rule: julian_date_to_gregorian_cal_years.induct)
  case (1 jmb ysf more cursor year)
  show ?case
  proof (cases "more < 400")
    case False
    with "1.prems" have "year = ysf + 400" by simp
    with "1.prems" show ?thesis by simp
  next
    case True
    then have i: "more < CYCLE_YEARS" by (simp add: CYCLE_YEARS_def)
    have w: "wrap32 (ysf + more) = year" "wrap32 (year + 1) = year + 1"
      using "1.prems" True by (simp_all add: wrap32_id)
    define x where "x = (if is_leap (wrap32 (ysf + more)) then LONG_YR else SHORT_YR)"
    have x: "cursor + of_int x = of_int (dby (year + 1) - B)"
      using "1.prems"(4) by (simp add: x_def w terse_year_length dby_Suc)
    show ?thesis
    proof (cases "cursor + of_int x \<le> jmb")
      case False
      with x "1.prems" have "jmb < of_int (dby (year + 1) - B)" by simp
      with False "1.prems" i show ?thesis
        by (subst julian_date_to_gregorian_cal_years.simps) (simp add: Let_def x_def [symmetric])
    next
      case c: True
      have "\<exists>y'. julian_date_to_gregorian_cal_years jmb ysf (more + 1) (cursor + of_int x)
              (wrap32 (year + 1)) = (of_int (dby y' - B), y')
          \<and> of_int (dby y' - B) \<le> jmb \<and> jmb < of_int (dby (y' + 1) - B)"
        using "1.prems" True c x w
        by (intro "1.IH" [OF i x_def c]) simp_all
      with c i show ?thesis
        by (subst julian_date_to_gregorian_cal_years.simps) (simp add: Let_def x_def [symmetric])
    qed
  qed
qed

lemma julian_date_to_gregorian_cal_months_post:
  assumes "1 \<le> month" "month \<le> 13" "cursor = of_int (dby year - B + dbm year month)"
    and "cursor \<le> jmb" "jmb < of_int (dby (year + 1) - B)"
  shows "\<exists>m'. julian_date_to_gregorian_cal_months jmb year month cursor
      = Some (m', jmb - of_int (dby year - B + dbm year m') + 1)
    \<and> 1 \<le> m' \<and> m' \<le> 12
    \<and> of_int (dby year - B + dbm year m') \<le> jmb
    \<and> jmb < of_int (dby year - B + dbm year (m' + 1))"
  using assms
proof (induction jmb year month cursor rule: julian_date_to_gregorian_cal_months.induct)
  case (1 jmb year month cursor)
  show ?case
  proof (cases "month \<le> 12")
    case False
    with "1.prems" have "month = 13" by simp
    with "1.prems" show ?thesis by (simp add: dbm_13 dby_Suc)
  next
    case True
    obtain l where l: "array_at MONTH_LEN (month - 1) = Some l"
      "(if is_leap year \<and> month = 2 then l + 1 else l) = ml year month"
      using terse_month_length [of month year] "1.prems" True by auto
    define x where "x = (if is_leap year \<and> month = 2 then l + 1 else l)"
    have x: "cursor + of_int x = of_int (dby year - B + dbm year (month + 1))"
      using "1.prems" True l(2) by (simp add: x_def dbm_Suc)
    show ?thesis
    proof (cases "cursor + of_int x \<le> jmb")
      case False
      with x "1.prems" have "jmb < of_int (dby year - B + dbm year (month + 1))" by simp
      with False "1.prems" True l(1) show ?thesis
        by (subst julian_date_to_gregorian_cal_months.simps)
          (simp add: Let_def x_def [symmetric])
    next
      case c: True
      have "\<exists>m'. julian_date_to_gregorian_cal_months jmb year (month + 1) (cursor + of_int x)
            = Some (m', jmb - of_int (dby year - B + dbm year m') + 1)
          \<and> 1 \<le> m' \<and> m' \<le> 12
          \<and> of_int (dby year - B + dbm year m') \<le> jmb
          \<and> jmb < of_int (dby year - B + dbm year (m' + 1))"
        using "1.prems" True c x
        by (intro "1.IH" [OF True l(1) x_def c]) simp_all
      with c True l(1) show ?thesis
        by (subst julian_date_to_gregorian_cal_months.simps)
          (simp add: Let_def x_def [symmetric])
    qed
  qed
qed

lemma julian_date_to_gregorian_cal_post:
  fixes dj1 dj2 :: real
  defines "t \<equiv> dj1 + dj2 - 1721059.5"
  assumes "- 2147479803 \<le> t" "t < 2147625900"
  shows "\<exists>y m d. julian_date_to_gregorian_cal dj1 dj2
      = Some (y, m, d, t - of_int (day_start y m d))
    \<and> on_day t y m d"
proof -
  define n where "n = \<lfloor>t / 146097\<rfloor>"
  have n: "of_int (146097 * n) \<le> t" "t < of_int (146097 * n) + 146097"
    unfolding n_def by (rule cycle_floor)+
  have "- 14699 \<le> t / 146097" "t / 146097 < 14700"
    using assms(2,3) by simp_all
  then have n1: "- 14699 \<le> n" "n \<le> 14699"
    unfolding n_def by linarith+
  have tg: "dj1 + dj2 - JAN_1_YEAR_0 = t"
    by (simp add: t_def JAN_1_YEAR_0_def)
  have c: "int_of_double (c_floor (t / of_int CYCLE_DAYS)) = Some n"
    using n1 by (simp add: c_floor_def CYCLE_DAYS_eq n_def [symmetric] int_of_double_of_int)
  have w: "wrap32 (n * CYCLE_YEARS) = 400 * n" "wrap32 (n * CYCLE_DAYS) = 146097 * n"
    using n1 by (simp_all add: CYCLE_YEARS_def CYCLE_DAYS_eq wrap32_id)
  define jmb where "jmb = t - of_int (146097 * n)"
  have jm: "dj1 + dj2 - (JAN_1_YEAR_0 + of_int (146097 * n)) = jmb"
    by (simp add: jmb_def t_def JAN_1_YEAR_0_def)
  have j: "0 \<le> jmb" "jmb < 146097"
    using n by (simp_all add: jmb_def)
  define a where "a = \<lfloor>jmb\<rfloor>"
  have a: "0 \<le> a" "a \<le> 146096" "of_int a \<le> jmb"
    using j unfolding a_def by linarith+
  have ca: "int_of_double (c_floor jmb) = Some a"
    using a by (simp add: c_floor_def a_def [symmetric] int_of_double_of_int)
  define k where "k = a div 366 - 1"
  have k: "- 1 \<le> k" "k \<le> 398" "366 * (k + 1) \<le> a"
    using a(1,2) zdiv_mono1 [of a 146096 366]
    by (simp_all add: k_def pos_imp_zdiv_nonneg_iff)
  have wk: "wrap32 (c_div a LONG_YR - 1) = k"
    using a(1) k(1,2) by (simp add: LONG_YR_def c_div_nonneg k_def [symmetric] wrap32_id)
  define k' where "k' = max 0 k"
  have k': "0 \<le> k'" "k' \<le> 398" "dby k' \<le> a"
  proof -
    show "0 \<le> k'" "k' \<le> 398"
      using k by (simp_all add: k'_def)
    have "dby k' - dby 0 \<le> 366 * (k' - 0)"
      using dby_diff_bounds [of 0 k'] \<open>0 \<le> k'\<close> by blast
    then show "dby k' \<le> a"
      using k(3) a(1) by (simp add: dby_0 k'_def max_def split: if_splits)
  qed
  have more: "(if 0 < k
      then (0 + of_int (wrap32 (wrap32 (wrap32 (wrap32 (wrap32 (k * SHORT_YR) + c_div (k - 1) 4)
        - c_div (k - 1) 100) + c_div (k - 1) 400) + 1)), wrap32 (400 * n + k))
      else (0, 400 * n)) = (of_int (dby k') :: real, 400 * n + k')"
  proof (cases "0 < k")
    case True
    then have "k' = k" by (simp add: k'_def)
    moreover have "wrap32 (400 * n + k) = 400 * n + k"
      using n1 k by (simp add: wrap32_id)
    ultimately show ?thesis
      using True k(2) by (simp add: more_days_eq)
  next
    case False
    then have "k' = 0" by (simp add: k'_def)
    with False show ?thesis by (simp add: dby_0)
  qed
  define B where "B = 146097 * n"
  have s: "dby (400 * n + k') - B = dby k'" "dby (400 * n + k' + 400) - B = dby k' + 146097"
    using dby_shift [of n k'] dby_400 [of "400 * n + k'"] by (simp_all add: B_def)
  have "0 \<le> dby k' - dby 0"
    using dby_diff_bounds [of 0 k'] k'(1) by simp
  then have p: "0 \<le> dby k'"
    by (simp add: dby_0)
  obtain y where y: "julian_date_to_gregorian_cal_years jmb (400 * n + k') 0 (of_int (dby k'))
      (400 * n + k') = (of_int (dby y - B), y)"
    "of_int (dby y - B) \<le> jmb" "jmb < of_int (dby (y + 1) - B)"
    using julian_date_to_gregorian_cal_years_post
      [of 0 "400 * n + k'" "400 * n + k'" "of_int (dby k')" B jmb]
      n1 k' a(3) j p s by auto
  obtain m where m: "julian_date_to_gregorian_cal_months jmb y 1 (of_int (dby y - B))
      = Some (m, jmb - of_int (dby y - B + dbm y m) + 1)" "1 \<le> m" "m \<le> 12"
    "of_int (dby y - B + dbm y m) \<le> jmb" "jmb < of_int (dby y - B + dbm y (m + 1))"
    using julian_date_to_gregorian_cal_months_post [of 1 "of_int (dby y - B)" y B jmb] y(2,3)
    by (auto simp add: dbm_1)
  have m': "of_int (dby y + dbm y m) \<le> t" "t < of_int (dby y + dbm y (m + 1))"
    using m(4,5) by (simp_all add: jmb_def B_def)
  define days where "days = t - of_int (dby y + dbm y m) + 1"
  have fr: "jmb - of_int (dby y - B + dbm y m) + 1 = days"
    by (simp add: days_def jmb_def B_def)
  have e: "days = (t - of_int (dby y)) - of_int (dbm y m) + 1"
    by (simp add: days_def)
  have d: "1 \<le> \<lfloor>days\<rfloor>" "int_of_double (of_int \<lfloor>days\<rfloor>) = Some \<lfloor>days\<rfloor>"
    unfolding e using m'
    by (intro day_of_month(1,4) [of y m "t - of_int (dby y)"]; use m(2,3) in simp)+
  have "0 \<le> days"
    using d(1) by linarith
  then have mf: "modf days = (days - of_int \<lfloor>days\<rfloor>, of_int \<lfloor>days\<rfloor>)"
    by (simp add: modf_def Let_def)
  have o: "on_day t y m \<lfloor>days\<rfloor>" "days - of_int \<lfloor>days\<rfloor> = t - of_int (day_start y m \<lfloor>days\<rfloor>)"
    unfolding days_def using m' m(2,3) by (intro on_day_floor; simp)+
  have "julian_date_to_gregorian_cal dj1 dj2 = Some (y, m, \<lfloor>days\<rfloor>, days - of_int \<lfloor>days\<rfloor>)"
    unfolding julian_date_to_gregorian_cal_def Let_def tg c Option.bind.simps w jm ca wk more
      prod.case y(1) m(1) fr mf d(2)
    by simp
  with o show ?thesis by auto
qed

subsection \<open>The two variants side by side\<close>

lemma terse_round_trip:
  assumes "- 5879600 \<le> y" "y \<le> 5879610" "1 \<le> m" "m \<le> 12" "1 \<le> d" "d \<le> ml y m"
  shows "gregorian_cal_to_julian_date y m (of_int d)
      = Some (1721059.5 + of_int (day_start y m d), 0)"
    and "julian_date_to_gregorian_cal (1721059.5 + of_int (day_start y m d)) 0
      = Some (y, m, d, 0)"
proof -
  show "gregorian_cal_to_julian_date y m (of_int d)
      = Some (1721059.5 + of_int (day_start y m d), 0)"
    using assms by (simp add: gregorian_cal_to_julian_date_eq day_start_def JAN_0_YEAR_0_def)
  define t :: real where "t = of_int (day_start y m d)"
  have "dby (- 5879600) \<le> dby y"
    using assms(1) by (rule dby_mono)
  then have "- 2147479803 \<le> day_start y m d"
    using day_start_in_year(1) [OF assms(3-6)] dby_cycle [of "- 14699"] by simp
  moreover have "- 5879610 \<le> y"
    using assms(1) by simp
  ultimately have r: "- 2147479803 \<le> t" "t < 2147625900"
    using day_start_range(2) [OF _ assms(2-6)] by (simp_all add: t_def)
  have e: "1721059.5 + t + 0 - 1721059.5 = t"
    by simp
  obtain y' m' d' where p: "julian_date_to_gregorian_cal (1721059.5 + t) 0
      = Some (y', m', d', t - of_int (day_start y' m' d'))" "on_day t y' m' d'"
    using julian_date_to_gregorian_cal_post [of "1721059.5 + t" 0] r unfolding e by auto
  have "on_day t y m d"
    unfolding t_def using assms(3-6) by (rule on_day_start)
  with p(2) have "y' = y \<and> m' = m \<and> d' = d"
    by (rule on_day_unique)
  with p(1) show "julian_date_to_gregorian_cal (1721059.5 + of_int (day_start y m d)) 0
      = Some (y, m, d, 0)"
    by (simp add: t_def)
qed




lemma reverse_depends_on_sum:
  assumes "a + b = a' + b'"
  shows "alternate_jd2Cal a b = alternate_jd2Cal a' b'"
    and "julian_date_to_gregorian_cal a b = julian_date_to_gregorian_cal a' b'"
  using assms by (simp_all add: alternate_jd2Cal_def julian_date_to_gregorian_cal_def Let_def)

section \<open>The claims\<close>

text \<open>
  C1: for every year \<open>y\<close> from -50000 to 50000, every month \<open>m\<close> from 1 to 12 and every
  day \<open>d\<close> from 1 to \<open>month_len y m\<close>, the calendar-to-Julian-Date engine returns two
  components on which the Julian-Date-to-calendar engine returns exactly \<open>(y, m, d, 0.0)\<close>;
  so does the terse engine of \<^verbatim>\<open>alternate-jd2cal.c\<close>, and the terse forward engine returns
  the same two components.
\<close>

theorem round_trip:
  assumes "- 50000 \<le> y" "y \<le> 50000" "1 \<le> m" "m \<le> 12"
    and "1 \<le> d" "month_len y m = Some len" "d \<le> len"
  shows "\<exists>epochDay remainder.
      alternate_cal2jd y m d = Some (epochDay, remainder) \<and>
      alternate_jd2Cal epochDay remainder = Some (y, m, d, 0.0) \<and>
      julian_date_to_gregorian_cal epochDay remainder = Some (y, m, d, 0.0) \<and>
      gregorian_cal_to_julian_date y m (of_int d) = Some (epochDay, remainder)"
proof -
  have "len = ml y m"
    using assms(3,4,6) by (simp add: month_len_eq)
  with assms have v: "- 5879600 \<le> y" "- 5879610 \<le> y" "y \<le> 5879610" "d \<le> ml y m"
    by simp_all
  show ?thesis
    using alternate_round_trip [OF v(2,3) assms(3,4,5) v(4)]
      terse_round_trip [OF v(1,3) assms(3,4,5) v(4)]
    by simp
qed

theorem round_trip_witness:
  "(\<exists>epochDay remainder.
      alternate_cal2jd 2024 2 29 = Some (epochDay, remainder) \<and>
      alternate_jd2Cal epochDay remainder = Some (2024, 2, 29, 0.0) \<and>
      julian_date_to_gregorian_cal epochDay remainder = Some (2024, 2, 29, 0.0) \<and>
      gregorian_cal_to_julian_date 2024 2 29 = Some (epochDay, remainder)) \<and>
   (\<exists>epochDay remainder.
      alternate_cal2jd (- 50000) 12 31 = Some (epochDay, remainder) \<and>
      alternate_jd2Cal epochDay remainder = Some (- 50000, 12, 31, 0.0) \<and>
      julian_date_to_gregorian_cal epochDay remainder = Some (- 50000, 12, 31, 0.0) \<and>
      gregorian_cal_to_julian_date (- 50000) 12 31 = Some (epochDay, remainder))"
proof -
  have "month_len 2024 2 = Some 29" "month_len (- 50000) 12 = Some 31"
    by (simp_all add: month_len_eq ml_def is_leap_iff)
  then show ?thesis
    using round_trip [of 2024 2 29 29] round_trip [of "- 50000" 12 31 31]
    by simp
qed

text \<open>
  C2: the known fixed points. 2003-06-01 is JD 2452791.5, 2024-01-01 is JD 2460310.5 and
  1600-03-01 is JD 2305447.5 + 60, each returned in the first output with a zero second
  output and status 0; for -4713-11-24 the two outputs and the half day add up to 0.0; and
  JD (2460310.5, 0.0) converts back to (2024, 1, 1, 0.0) with status 0.
\<close>

theorem known_fixed_points:
  "alternate_iauCal2jd 2003 6 1 out = (0, Some (2452791.5, 0.0)) \<and>
   (\<exists>djm0. alternate_iauCal2jd (- 4713) 11 24 out = (0, Some (djm0, 0.0))
      \<and> djm0 + 0.0 + 0.5 = 0.0) \<and>
   alternate_iauCal2jd 2024 1 1 out = (0, Some (2460310.5, 0.0)) \<and>
   alternate_iauJd2cal 2460310.5 0.0 out' = (0, Some (2024, 1, 1, 0.0)) \<and>
   alternate_iauCal2jd 1600 3 1 out = (0, Some (2305447.5 + 60, 0.0))"
proof -
  have 1: "alternate_cal2jd 2003 6 1 = Some (2452791.5, 0.0)"
    by code_simp
  have 2: "alternate_cal2jd (- 4713) 11 24 = Some (- 0.5, 0.0)"
    by code_simp
  have 3: "alternate_cal2jd 2024 1 1 = Some (2460310.5, 0.0)"
    by code_simp
  have 4: "alternate_jd2Cal 2460310.5 0.0 = Some (2024, 1, 1, 0.0)"
    by code_simp
  have 5: "alternate_cal2jd 1600 3 1 = Some (2305447.5 + 60, 0.0)"
    by code_simp
  have m: "ml 2003 6 = 30" "ml (- 4713) 11 = 30" "ml 2024 1 = 31" "ml 1600 3 = 31"
    by (simp_all add: ml_def)
  show ?thesis
    using 1 2 3 4 5
    by (simp add: alternate_iauCal2jd_valid_month alternate_iauJd2cal_def DJMAX_def m)
qed

theorem known_fixed_points_witness:
  "alternate_iauCal2jd 2003 6 1 (0, 0) = (0, Some (2452791.5, 0.0)) \<and>
   alternate_iauCal2jd (- 4713) 11 24 (0, 0) = (0, Some (- 0.5, 0.0)) \<and>
   alternate_iauCal2jd 2024 1 1 (0, 0) = (0, Some (2460310.5, 0.0)) \<and>
   alternate_iauJd2cal 2460310.5 0.0 (0, 0, 0, 0) = (0, Some (2024, 1, 1, 0.0)) \<and>
   alternate_iauCal2jd 1600 3 1 (0, 0) = (0, Some (2305507.5, 0.0))"
  using known_fixed_points [of "(0, 0)" "(0, 0, 0, 0)"]
  by auto

text \<open>
  C3, as the code has it: a day out of range does not stop the computation, a month out
  of range does. For a month in 1..12 both variants write a Julian Date with a zero
  second component for every year and every day, and return \<open>-3\<close> with it when the day is
  out of range. For a month outside 1..12 they return \<open>-2\<close> at once and the outputs keep
  the contents they had.
\<close>

theorem invalid_day_still_computes:
  "(1 \<le> m \<and> m \<le> 12 \<longrightarrow>
      (\<exists>len jd jd'. month_len y m = Some len \<and>
         alternate_iauCal2jd y m d out = (if d < 1 \<or> d > len then - 3 else 0, Some (jd, 0)) \<and>
         terse_alternate_iauCal2jd y m d out
           = (if d < 1 \<or> d > len then - 3 else 0, Some (jd', 0)))) \<and>
   (m < 1 \<or> m > 12 \<longrightarrow>
      alternate_iauCal2jd y m d out = (- 2, Some out) \<and>
      terse_alternate_iauCal2jd y m d out = (- 2, Some out))"
proof (intro conjI impI)
  assume m: "1 \<le> m \<and> m \<le> 12"
  obtain jd where jd: "alternate_cal2jd y m d = Some (jd, 0)"
    using alternate_cal2jd_Some [of m y d] m by auto
  obtain jd' where jd': "gregorian_cal_to_julian_date y m (of_int d) = Some (jd', 0)"
    using gregorian_cal_to_julian_date_Some [of m y "of_int d"] m by auto
  have "month_len y m = Some (ml y m)"
    using m by (simp add: month_len_eq)
  then show "\<exists>len jd jd'. month_len y m = Some len \<and>
      alternate_iauCal2jd y m d out = (if d < 1 \<or> d > len then - 3 else 0, Some (jd, 0)) \<and>
      terse_alternate_iauCal2jd y m d out
        = (if d < 1 \<or> d > len then - 3 else 0, Some (jd', 0))"
    using m jd jd'
    by (simp add: alternate_iauCal2jd_valid_month terse_alternate_iauCal2jd_valid_month)
next
  assume "m < 1 \<or> m > 12"
  then show "alternate_iauCal2jd y m d out = (- 2, Some out)"
    "terse_alternate_iauCal2jd y m d out = (- 2, Some out)"
    by (simp_all add: alternate_iauCal2jd_invalid_month terse_alternate_iauCal2jd_invalid_month)
qed

theorem invalid_day_still_computes_witness:
  "alternate_iauCal2jd 2023 2 30 (7, 9) = (- 3, Some (2460005.5, 0)) \<and>
   terse_alternate_iauCal2jd 2023 2 30 (7, 9) = (- 3, Some (2460005.5, 0)) \<and>
   alternate_iauCal2jd 2023 0 30 (7, 9) = (- 2, Some (7, 9)) \<and>
   terse_alternate_iauCal2jd 2023 0 30 (7, 9) = (- 2, Some (7, 9))"
proof -
  have 1: "alternate_cal2jd 2023 2 30 = Some (2460005.5, 0)"
    by code_simp
  have 2: "gregorian_cal_to_julian_date 2023 2 30 = Some (2460005.5, 0)"
    by code_simp
  have 3: "alternate_iauCal2jd 2023 2 30 (7, 9) = (- 3, alternate_cal2jd 2023 2 30)"
    "terse_alternate_iauCal2jd 2023 2 30 (7, 9) = (- 3, gregorian_cal_to_julian_date 2023 2 30)"
    by (simp_all add: alternate_iauCal2jd_valid_month terse_alternate_iauCal2jd_valid_month
        ml_def is_leap_iff)
  show ?thesis
    using invalid_day_still_computes [of 2 2023 30 "(7, 9)"]
      invalid_day_still_computes [of 0 2023 30 "(7, 9)"] 1 2 3
    by simp
qed

theorem invalid_month_writes_nothing:
  "alternate_iauCal2jd 2024 13 1 (1, 2) = (- 2, Some (1, 2)) \<and>
   alternate_iauCal2jd 2024 13 1 (3, 4) = (- 2, Some (3, 4)) \<and>
   terse_alternate_iauCal2jd 2024 13 1 (1, 2) = (- 2, Some (1, 2)) \<and>
   terse_alternate_iauCal2jd 2024 13 1 (3, 4) = (- 2, Some (3, 4))"
  by (simp add: alternate_iauCal2jd_def terse_alternate_iauCal2jd_def)

text \<open>
  C5, as the code has it: for every year \<open>y\<close> from -5879611 to 5879998, the Julian Date of
  December 31 of \<open>y\<close> plus one is the Julian Date of January 1 of \<open>y + 1\<close>, both with
  status 0 and a zero second component. The range includes the step from year -1 to year
  0 and the steps across the 400-year cycles; beyond it the 32-bit day counts overflow.
\<close>

theorem boundary_continuity:
  assumes "- 5879611 \<le> y" "y \<le> 5879998"
  shows "\<exists>jd. alternate_iauCal2jd y 12 31 out = (0, Some (jd, 0)) \<and>
    alternate_iauCal2jd (y + 1) 1 1 out' = (0, Some (jd + 1, 0))"
  using boundary_continuity_engine [OF assms]
  by (simp add: alternate_iauCal2jd_valid_month ml_def)

theorem boundary_continuity_witness:
  "(\<exists>jd. alternate_iauCal2jd (- 1) 12 31 (0, 0) = (0, Some (jd, 0)) \<and>
      alternate_iauCal2jd 0 1 1 (0, 0) = (0, Some (jd + 1, 0))) \<and>
   (\<exists>jd. alternate_iauCal2jd 399 12 31 (0, 0) = (0, Some (jd, 0)) \<and>
      alternate_iauCal2jd 400 1 1 (0, 0) = (0, Some (jd + 1, 0))) \<and>
   (\<exists>jd. alternate_iauCal2jd (- 401) 12 31 (0, 0) = (0, Some (jd, 0)) \<and>
      alternate_iauCal2jd (- 400) 1 1 (0, 0) = (0, Some (jd + 1, 0)))"
  using boundary_continuity [of "- 1" "(0, 0)" "(0, 0)"]
    boundary_continuity [of 399 "(0, 0)" "(0, 0)"]
    boundary_continuity [of "- 401" "(0, 0)" "(0, 0)"]
  by simp

theorem boundary_continuity_overflow:
  "alternate_iauCal2jd 5879999 12 31 (0, 0) = (0, Some (2149346958.5, 0)) \<and>
   alternate_iauCal2jd (5879999 + 1) 1 1 (0, 0) = (0, Some (- 2145620336.5, 0)) \<and>
   (2149346958.5 :: real) + 1 \<noteq> - 2145620336.5"
proof -
  have 1: "alternate_cal2jd 5879999 12 31 = Some (2149346958.5, 0)"
    by code_simp
  have 2: "alternate_cal2jd 5880000 1 1 = Some (- 2145620336.5, 0)"
    by code_simp
  show ?thesis
    using 1 2 by (simp add: alternate_iauCal2jd_valid_month ml_def)
qed

text \<open>
  C6: the status of the forward conversion, in both variants, for every input: \<open>-2\<close>
  (InvalidMonth) exactly when the month is outside 1..12; for a month in 1..12, \<open>-3\<close>
  (InvalidDay) exactly when the day is below 1 or above \<open>month_len\<close> of the year and month,
  and \<open>0\<close> (Ok) otherwise; and \<open>month_len\<close> of February is 29 exactly in leap years.
\<close>

theorem forward_status_taxonomy:
  "(fst (alternate_iauCal2jd y m d out) = - 2 \<longleftrightarrow> m < 1 \<or> m > 12) \<and>
   (fst (terse_alternate_iauCal2jd y m d out) = - 2 \<longleftrightarrow> m < 1 \<or> m > 12) \<and>
   (1 \<le> m \<and> m \<le> 12 \<longrightarrow>
      (\<exists>len. month_len y m = Some len \<and>
         fst (alternate_iauCal2jd y m d out) = (if d < 1 \<or> d > len then - 3 else 0) \<and>
         fst (terse_alternate_iauCal2jd y m d out) = (if d < 1 \<or> d > len then - 3 else 0))) \<and>
   month_len y 2 = Some (if is_leap y then 29 else 28)"
proof (intro conjI impI)
  show "fst (alternate_iauCal2jd y m d out) = - 2 \<longleftrightarrow> m < 1 \<or> m > 12"
    by (simp add: alternate_iauCal2jd_status)
  show "fst (terse_alternate_iauCal2jd y m d out) = - 2 \<longleftrightarrow> m < 1 \<or> m > 12"
    by (simp add: terse_alternate_iauCal2jd_status)
  show "month_len y 2 = Some (if is_leap y then 29 else 28)"
    by (simp add: month_len_eq ml_def)
next
  assume m: "1 \<le> m \<and> m \<le> 12"
  then have "month_len y m = Some (ml y m)"
    by (simp add: month_len_eq)
  with m show "\<exists>len. month_len y m = Some len \<and>
      fst (alternate_iauCal2jd y m d out) = (if d < 1 \<or> d > len then - 3 else 0) \<and>
      fst (terse_alternate_iauCal2jd y m d out) = (if d < 1 \<or> d > len then - 3 else 0)"
    by (simp add: alternate_iauCal2jd_status terse_alternate_iauCal2jd_status)
qed

theorem forward_status_taxonomy_witness:
  "fst (alternate_iauCal2jd (- 4) 2 29 (0, 0)) = 0 \<and>
   fst (terse_alternate_iauCal2jd (- 4) 2 29 (0, 0)) = 0 \<and>
   fst (alternate_iauCal2jd (- 4) 2 30 (0, 0)) = - 3 \<and>
   fst (alternate_iauCal2jd (- 4) 2 0 (0, 0)) = - 3 \<and>
   fst (alternate_iauCal2jd (- 4) 13 1 (0, 0)) = - 2 \<and>
   month_len (- 4) 2 = Some 29"
  using forward_status_taxonomy [of "- 4" 2 29 "(0, 0)"]
    forward_status_taxonomy [of "- 4" 2 30 "(0, 0)"]
    forward_status_taxonomy [of "- 4" 2 0 "(0, 0)"]
    forward_status_taxonomy [of "- 4" 13 1 "(0, 0)"]
  by (simp add: is_leap_iff)



text \<open>
  C8: for every year \<open>y\<close>, zero and negative years included, \<open>is_leap y\<close> holds exactly when
  \<open>y\<close> is divisible by 4 and, if it is divisible by 100, also by 400; and for a month \<open>m\<close>
  from 1 to 12, \<open>month_len y m\<close> is the entry of the table for \<open>m\<close>, plus one exactly when
  \<open>m\<close> is February and \<open>is_leap y\<close> holds.
\<close>

theorem leap_rule_and_month_len:
  "(is_leap y \<longleftrightarrow> 4 dvd y \<and> (100 dvd y \<longrightarrow> 400 dvd y)) \<and>
   (1 \<le> m \<and> m \<le> 12 \<longrightarrow>
      (\<exists>len. array_at MONTH_LEN_TABLE (m - 1) = Some len \<and>
         month_len y m = Some (if m = 2 \<and> is_leap y then len + 1 else len)))"
proof (intro conjI impI)
  show "is_leap y \<longleftrightarrow> 4 dvd y \<and> (100 dvd y \<longrightarrow> 400 dvd y)"
    by (rule is_leap_iff)
next
  assume "1 \<le> m \<and> m \<le> 12"
  then have "0 \<le> m - 1" "m - 1 < int (length MONTH_LEN_TABLE)"
    by (simp_all add: MONTH_LEN_TABLE_def)
  then have "array_at MONTH_LEN_TABLE (m - 1) = Some (MONTH_LEN_TABLE ! nat (m - 1))"
    by (simp add: array_at_def)
  then show "\<exists>len. array_at MONTH_LEN_TABLE (m - 1) = Some len \<and>
      month_len y m = Some (if m = 2 \<and> is_leap y then len + 1 else len)"
    by (auto simp add: month_len_def)
qed

theorem leap_rule_and_month_len_witness:
  "is_leap (- 4) \<and> month_len (- 4) 2 = Some 29 \<and> is_leap 0 \<and> month_len 0 2 = Some 29
     \<and> \<not> is_leap 1900 \<and> month_len 1900 2 = Some 28 \<and> month_len 1900 12 = Some 31"
  using leap_rule_and_month_len [of "- 4" 2] leap_rule_and_month_len [of 0 2]
    leap_rule_and_month_len [of 1900 2] leap_rule_and_month_len [of 1900 12]
  by (simp add: array_at_def MONTH_LEN_TABLE_def)







end
